theory Spec2Isabelle
  imports Main "HOL-Library.AList"
begin

section \<open>The collaborators of the buffer manager\<close>

text \<open>
  \<^verbatim>\<open>buffer.cpp\<close> uses four classes whose declarations live in headers that are not part
  of the file: \<^verbatim>\<open>File\<close>, \<^verbatim>\<open>Page\<close>, \<^verbatim>\<open>BufHashTbl\<close> and \<^verbatim>\<open>BufDesc\<close>.
  They are modelled here from their description in the specification (sections 3 and 6).
  A \<^verbatim>\<open>File*\<close> is identified with a natural number, \<^verbatim>\<open>NULL\<close> with \<open>None\<close>.
\<close>

type_synonym FileId = nat
type_synonym PageId = nat
type_synonym FrameId = nat

record Page =
  page_number :: PageId
  content :: string

text \<open>Modelled from the spec: \<^verbatim>\<open>Page::INVALID_NUMBER\<close>, the reserved sentinel that is no
  real page number. No theorem about the operations depends on its value; only the
  examples evaluate it.\<close>

definition INVALID_NUMBER :: PageId where
  "INVALID_NUMBER = 0"

datatype error =
    BufferExceededException
  | PageNotPinnedException FileId PageId FrameId
  | PagePinnedException FileId PageId FrameId
  | BadBufferException FrameId bool bool bool
  | HashNotFoundException FileId PageId
  | HashAlreadyPresentException FileId PageId FrameId
  | InvalidPageException PageId FileId
  | NullPointerFault
  | DivisionFault

text \<open>Modelled from the spec: the Page Storage Backend. Every file is a table from page
  numbers to page contents; \<open>writes\<close> records, in order, each \<^verbatim>\<open>writePage\<close> the backend
  has observed.\<close>

record Storage =
  files :: "FileId \<Rightarrow> (PageId \<times> string) list"
  writes :: "(FileId \<times> Page) list"

text \<open>Modelled from the spec: \<^verbatim>\<open>File::readPage\<close> fails if the page does not exist.\<close>

definition file_readPage :: "FileId \<Rightarrow> PageId \<Rightarrow> Storage \<Rightarrow> error + Page" where
  "file_readPage f p st =
     (case map_of (files st f) p of
        None \<Rightarrow> Inl (InvalidPageException p f)
      | Some c \<Rightarrow> Inr \<lparr>page_number = p, content = c\<rparr>)"

text \<open>Modelled from the spec: \<^verbatim>\<open>File::writePage\<close>; the page carries its own identity.\<close>

definition file_writePage :: "FileId \<Rightarrow> Page \<Rightarrow> Storage \<Rightarrow> Storage" where
  "file_writePage f pg st =
     st\<lparr>files := (files st)(f := AList.update (page_number pg) (content pg) (files st f)),
        writes := writes st @ [(f, pg)]\<rparr>"

fun max_page :: "(PageId \<times> string) list \<Rightarrow> PageId" where
  "max_page [] = INVALID_NUMBER"
| "max_page ((p, c) # ps) = max p (max_page ps)"

text \<open>Modelled from the spec: \<^verbatim>\<open>File::allocatePage\<close> returns a new page with an assigned
  page number. The number chosen is one above every number in use.\<close>

definition file_allocatePage :: "FileId \<Rightarrow> Storage \<Rightarrow> Page \<times> Storage" where
  "file_allocatePage f st =
     (let n = Suc (max_page (files st f)) in
      (\<lparr>page_number = n, content = []\<rparr>,
       st\<lparr>files := (files st)(f := AList.update n [] (files st f))\<rparr>))"

text \<open>Modelled from the spec: \<^verbatim>\<open>File::deletePage\<close> fails if the page is not present.\<close>

definition file_deletePage :: "FileId \<Rightarrow> PageId \<Rightarrow> Storage \<Rightarrow> error + Storage" where
  "file_deletePage f p st =
     (case map_of (files st f) p of
        None \<Rightarrow> Inl (InvalidPageException p f)
      | Some c \<Rightarrow> Inr (st\<lparr>files := (files st)(f := AList.delete p (files st f))\<rparr>))"

text \<open>Modelled from the spec: the Page Identity Index (\<^verbatim>\<open>BufHashTbl\<close>). \<^verbatim>\<open>lookup\<close> is
  application of the map; \<^verbatim>\<open>insert\<close> fails if the pair exists, \<^verbatim>\<open>remove\<close> if it does
  not.\<close>

type_synonym BufHashTbl = "FileId \<times> PageId \<rightharpoonup> FrameId"

definition hash_insert :: "BufHashTbl \<Rightarrow> FileId \<Rightarrow> PageId \<Rightarrow> FrameId \<Rightarrow> error + BufHashTbl" where
  "hash_insert h f p i =
     (case h (f, p) of
        Some j \<Rightarrow> Inl (HashAlreadyPresentException f p j)
      | None \<Rightarrow> Inr (h((f, p) \<mapsto> i)))"

definition hash_remove :: "BufHashTbl \<Rightarrow> FileId \<Rightarrow> PageId \<Rightarrow> error + BufHashTbl" where
  "hash_remove h f p =
     (case h (f, p) of
        None \<Rightarrow> Inl (HashNotFoundException f p)
      | Some j \<Rightarrow> Inr (h((f, p) := None)))"

text \<open>Modelled from the spec: the frame descriptor \<^verbatim>\<open>BufDesc\<close> with its two methods.
  \<^verbatim>\<open>Clear\<close> resets every field but \<open>frameNo\<close> to its default; \<^verbatim>\<open>Set\<close> makes the frame
  resident with one pin and the reference bit set. The pin count is a signed counter, taken
  here as an unbounded integer.\<close>

record BufDesc =
  file_ptr :: "FileId option"
  pageNo :: PageId
  frameNo :: FrameId
  pinCnt :: int
  dirty :: bool
  valid :: bool
  refbit :: bool

definition Clear :: "BufDesc \<Rightarrow> BufDesc" where
  "Clear d = d\<lparr>pinCnt := 0, file_ptr := None, pageNo := INVALID_NUMBER,
               dirty := False, refbit := False, valid := False\<rparr>"

definition Set :: "FileId \<Rightarrow> PageId \<Rightarrow> BufDesc \<Rightarrow> BufDesc" where
  "Set f p d = d\<lparr>file_ptr := Some f, pageNo := p, pinCnt := 1,
                 dirty := False, valid := True, refbit := True\<rparr>"

section \<open>The buffer manager\<close>

text \<open>The state of a \<^verbatim>\<open>BufMgr\<close> object together with the backend it talks to. Frame
  numbers and the clock hand are 32-bit unsigned; they are natural numbers here and the
  two places where the source could wrap (\<^verbatim>\<open>clockHand++\<close>, \<^verbatim>\<open>2 * numBufs\<close>) carry
  their \<open>mod 2 ^ 32\<close>. The last field is a ghost: it counts the calls of
  \<^verbatim>\<open>advanceClock\<close> made so far, and no operation reads it.\<close>

record BufMgr =
  numBufs :: nat
  bufDescTable :: "BufDesc list"
  bufPool :: "Page list"
  hashTable :: BufHashTbl
  clockHand :: FrameId
  backend :: Storage
  advances :: nat

text \<open>The constructor. The descriptors and pages it allocates are default-constructed:
  following the specification, a fresh descriptor has every field at its cleared default
  and a fresh page has the invalid number and no content. \<open>bufs - 1\<close> is computed in
  32-bit unsigned arithmetic.\<close>

definition BufMgr_init :: "nat \<Rightarrow> Storage \<Rightarrow> BufMgr" where
  "BufMgr_init bufs st =
     \<lparr>numBufs = bufs,
      bufDescTable = map (\<lambda>i. \<lparr>file_ptr = None, pageNo = INVALID_NUMBER, frameNo = i, pinCnt = 0,
                               dirty = False, valid = False, refbit = False\<rparr>) [0..<bufs],
      bufPool = replicate bufs \<lparr>page_number = INVALID_NUMBER, content = []\<rparr>,
      hashTable = Map.empty,
      clockHand = (bufs + 2 ^ 32 - 1) mod 2 ^ 32,
      backend = st,
      advances = 0\<rparr>"

text \<open>\<^verbatim>\<open>advanceClock\<close>. With \<open>numBufs = 0\<close> the source divides by zero; \<open>allocBuf\<close>, its
  only caller, reports that case as \<open>DivisionFault\<close> before the first call.\<close>

definition advanceClock :: "BufMgr \<Rightarrow> BufMgr" where
  "advanceClock s = s\<lparr>clockHand := ((clockHand s + 1) mod 2 ^ 32) mod numBufs s,
                     advances := advances s + 1\<rparr>"

text \<open>The three statements that free an occupied frame, as they stand in \<^verbatim>\<open>allocBuf\<close>
  (lines 94 to 98) and again in \<^verbatim>\<open>flushFile\<close> (lines 167 to 171): write the page back
  if it is dirty, remove the pair from the index, clear the descriptor. An exception of
  \<^verbatim>\<open>remove\<close> leaves what was done before it.\<close>

definition evictFrame :: "FrameId \<Rightarrow> BufMgr \<Rightarrow> (error + unit) \<times> BufMgr" where
  "evictFrame i s =
     (let d = bufDescTable s ! i in
      case file_ptr d of
        None \<Rightarrow> (Inl NullPointerFault, s)
      | Some f \<Rightarrow>
          let s1 = (if dirty d
                    then s\<lparr>backend := file_writePage f (bufPool s ! i) (backend s)\<rparr>
                    else s) in
          (case hash_remove (hashTable s1) f (pageNo d) of
             Inl e \<Rightarrow> (Inl e, s1)
           | Inr h \<Rightarrow>
               (Inr (), s1\<lparr>hashTable := h,
                           bufDescTable := (bufDescTable s1)[i := Clear d]\<rparr>)))"

text \<open>The \<^verbatim>\<open>while (maxBound > 0)\<close> loop of \<^verbatim>\<open>allocBuf\<close>. The first argument is
  \<open>maxBound\<close>; the result carries the value \<open>maxBound\<close> has when the loop is left.\<close>

fun allocBuf_loop :: "nat \<Rightarrow> BufMgr \<Rightarrow> (error + unit) \<times> nat \<times> BufMgr" where
  "allocBuf_loop 0 s = (Inr (), 0, s)"
| "allocBuf_loop (Suc m) s =
     (let d = bufDescTable s ! clockHand s in
      if \<not> valid d then (Inr (), Suc m, s)
      else if refbit d then
        allocBuf_loop m
          (advanceClock (s\<lparr>bufDescTable := (bufDescTable s)[clockHand s := d\<lparr>refbit := False\<rparr>]\<rparr>))
      else if pinCnt d > 0 then allocBuf_loop m (advanceClock s)
      else (case evictFrame (clockHand s) s of
              (Inl e, s') \<Rightarrow> (Inl e, Suc m, s')
            | (Inr u, s') \<Rightarrow> (Inr (), Suc m, s')))"

definition allocBuf :: "BufMgr \<Rightarrow> (error + FrameId) \<times> BufMgr" where
  "allocBuf s =
     (if numBufs s = 0 then (Inl DivisionFault, s)
      else
        let maxBound = (2 * numBufs s) mod 2 ^ 32 in
        case allocBuf_loop maxBound (advanceClock s) of
          (Inl e, mb, s') \<Rightarrow> (Inl e, s')
        | (Inr u, mb, s') \<Rightarrow>
            if mb = 0 then (Inl BufferExceededException, s')
            else (Inr (clockHand s'), s'))"

text \<open>\<^verbatim>\<open>readPage\<close>. The result is the frame whose slot the returned pointer refers to.\<close>

definition readPage :: "FileId \<Rightarrow> PageId \<Rightarrow> BufMgr \<Rightarrow> (error + FrameId) \<times> BufMgr" where
  "readPage f p s =
     (case hashTable s (f, p) of
        Some fr \<Rightarrow>
          (let d = bufDescTable s ! fr in
           (Inr fr,
            s\<lparr>bufDescTable :=
                (bufDescTable s)[fr := d\<lparr>pinCnt := pinCnt d + 1, refbit := True\<rparr>]\<rparr>))
      | None \<Rightarrow>
          (case allocBuf s of
             (Inl e, s1) \<Rightarrow> (Inl e, s1)
           | (Inr fr, s1) \<Rightarrow>
               (case file_readPage f p (backend s1) of
                  Inl e \<Rightarrow> (Inl e, s1)
                | Inr pg \<Rightarrow>
                    let s2 = s1\<lparr>bufPool := (bufPool s1)[fr := pg],
                               bufDescTable :=
                                 (bufDescTable s1)[fr := Set f p (bufDescTable s1 ! fr)]\<rparr>
                    in (case hash_insert (hashTable s2) f p fr of
                          Inl e \<Rightarrow> (Inl e, s2)
                        | Inr h \<Rightarrow> (Inr fr, s2\<lparr>hashTable := h\<rparr>)))))"

definition unPinPage :: "FileId \<Rightarrow> PageId \<Rightarrow> bool \<Rightarrow> BufMgr \<Rightarrow> (error + unit) \<times> BufMgr" where
  "unPinPage f p dty s =
     (case hashTable s (f, p) of
        None \<Rightarrow> (Inr (), s)
      | Some fr \<Rightarrow>
          (let d = bufDescTable s ! fr in
           if pinCnt d \<le> 0 then (Inl (PageNotPinnedException f p fr), s)
           else
             let d1 = d\<lparr>pinCnt := pinCnt d - 1\<rparr>;
                 d2 = (if dty then d1\<lparr>dirty := True\<rparr> else d1)
             in (Inr (), s\<lparr>bufDescTable := (bufDescTable s)[fr := d2]\<rparr>)))"

text \<open>The body of the \<^verbatim>\<open>for\<close> loop of \<^verbatim>\<open>flushFile\<close>, run over the frame numbers that are
  left to visit.\<close>

fun flushFile_loop :: "FileId \<Rightarrow> FrameId list \<Rightarrow> BufMgr \<Rightarrow> (error + unit) \<times> BufMgr" where
  "flushFile_loop f [] s = (Inr (), s)"
| "flushFile_loop f (i # rest) s =
     (let curr = bufDescTable s ! i in
      if \<not> valid curr \<and> (pinCnt curr \<noteq> 0 \<or> file_ptr curr \<noteq> None \<or> pageNo curr \<noteq> INVALID_NUMBER
                          \<or> dirty curr \<or> refbit curr)
      then (Inl (BadBufferException i (dirty curr) False (refbit curr)), s)
      else if \<not> valid curr \<or> file_ptr curr \<noteq> Some f then flushFile_loop f rest s
      else if pinCnt curr > 0 then (Inl (PagePinnedException f (pageNo curr) i), s)
      else (case evictFrame i s of
              (Inl e, s') \<Rightarrow> (Inl e, s')
            | (Inr u, s') \<Rightarrow> flushFile_loop f rest s'))"

definition flushFile :: "FileId \<Rightarrow> BufMgr \<Rightarrow> (error + unit) \<times> BufMgr" where
  "flushFile f s = flushFile_loop f [0..<numBufs s] s"

text \<open>\<^verbatim>\<open>allocPage\<close>. The result is the new page number and the frame of the handle.\<close>

definition allocPage :: "FileId \<Rightarrow> BufMgr \<Rightarrow> (error + PageId \<times> FrameId) \<times> BufMgr" where
  "allocPage f s =
     (let (new_pg, st) = file_allocatePage f (backend s);
          s0 = s\<lparr>backend := st\<rparr>
      in case allocBuf s0 of
           (Inl e, s1) \<Rightarrow> (Inl e, s1)
         | (Inr frame, s1) \<Rightarrow>
             (case hash_insert (hashTable s1) f (page_number new_pg) frame of
                Inl e \<Rightarrow> (Inl e, s1)
              | Inr h \<Rightarrow>
                  (Inr (page_number new_pg, frame),
                   s1\<lparr>hashTable := h,
                      bufDescTable :=
                        (bufDescTable s1)[frame := Set f (page_number new_pg) (bufDescTable s1 ! frame)],
                      bufPool := (bufPool s1)[frame := new_pg]\<rparr>)))"

definition disposePage :: "FileId \<Rightarrow> PageId \<Rightarrow> BufMgr \<Rightarrow> (error + unit) \<times> BufMgr" where
  "disposePage f p s =
     (case file_deletePage f p (backend s) of
        Inl e \<Rightarrow> (Inl e, s)
      | Inr st \<Rightarrow>
          (let s1 = s\<lparr>backend := st\<rparr> in
           case hashTable s1 (f, p) of
             None \<Rightarrow> (Inr (), s1)
           | Some frameId \<Rightarrow>
               (Inr (), s1\<lparr>hashTable := (hashTable s1)((f, p) := None),
                           bufDescTable :=
                             (bufDescTable s1)[frameId := Clear (bufDescTable s1 ! frameId)]\<rparr>)))"

text \<open>What the holder of a pin does when it modifies the page through the pointer that
  \<^verbatim>\<open>readPage\<close> returned: the content of the frame's slot changes, nothing else.\<close>

definition modifyPage :: "FrameId \<Rightarrow> string \<Rightarrow> BufMgr \<Rightarrow> BufMgr" where
  "modifyPage i c s = s\<lparr>bufPool := (bufPool s)[i := (bufPool s ! i)\<lparr>content := c\<rparr>]\<rparr>"

section \<open>Sequences of operations\<close>

text \<open>A consumer calls the public operations one after the other; an operation that
  throws leaves the state as it is at the throw, and the consumer may go on.\<close>

datatype op =
    ReadPage FileId PageId
  | UnPinPage FileId PageId bool
  | AllocPage FileId
  | FlushFile FileId
  | DisposePage FileId PageId

fun exec :: "op \<Rightarrow> BufMgr \<Rightarrow> BufMgr" where
  "exec (ReadPage f p) s = snd (readPage f p s)"
| "exec (UnPinPage f p dty) s = snd (unPinPage f p dty s)"
| "exec (AllocPage f) s = snd (allocPage f s)"
| "exec (FlushFile f) s = snd (flushFile f s)"
| "exec (DisposePage f p) s = snd (disposePage f p s)"

definition run :: "op list \<Rightarrow> BufMgr \<Rightarrow> BufMgr" where
  "run ops s = foldl (\<lambda>t x. exec x t) s ops"

section \<open>Auxiliary views of the code\<close>

text \<open>The state \<open>evictFrame\<close> leaves when the index holds the frame's pair.\<close>

definition evicted :: "FrameId \<Rightarrow> BufMgr \<Rightarrow> BufMgr" where
  "evicted i s =
     (let d = bufDescTable s ! i; f = the (file_ptr d) in
      s\<lparr>backend := (if dirty d then file_writePage f (bufPool s ! i) (backend s) else backend s),
        hashTable := (hashTable s)((f, pageNo d) := None),
        bufDescTable := (bufDescTable s)[i := Clear d]\<rparr>)"

text \<open>The loop of \<^verbatim>\<open>allocBuf\<close> cut off where it stops advancing: it runs the two
  \<^verbatim>\<open>continue\<close> branches and returns, with the remaining \<open>maxBound\<close>, the state in which
  the loop either finds the frame under the hand free, or is about to evict it, or has
  used up its bound.\<close>

fun allocBuf_search :: "nat \<Rightarrow> BufMgr \<Rightarrow> nat \<times> BufMgr" where
  "allocBuf_search 0 s = (0, s)"
| "allocBuf_search (Suc m) s =
     (let d = bufDescTable s ! clockHand s in
      if \<not> valid d then (Suc m, s)
      else if refbit d then
        allocBuf_search m
          (advanceClock (s\<lparr>bufDescTable := (bufDescTable s)[clockHand s := d\<lparr>refbit := False\<rparr>]\<rparr>))
      else if pinCnt d > 0 then allocBuf_search m (advanceClock s)
      else (Suc m, s))"

text \<open>The effect of the first \<^verbatim>\<open>continue\<close> branch on the descriptor under the hand.\<close>

definition clearRef :: "BufMgr \<Rightarrow> BufMgr" where
  "clearRef s =
     s\<lparr>bufDescTable :=
         (bufDescTable s)[clockHand s := (bufDescTable s ! clockHand s)\<lparr>refbit := False\<rparr>]\<rparr>"

text \<open>Two descriptors that differ at most in that the second has lost its reference
  bit.\<close>

definition same_but_refbit :: "BufDesc \<Rightarrow> BufDesc \<Rightarrow> bool" where
  "same_but_refbit d d' \<longleftrightarrow> d'\<lparr>refbit := False\<rparr> = d\<lparr>refbit := False\<rparr> \<and> (refbit d' \<longrightarrow> refbit d)"

text \<open>The number of frames the hand passes on its way from frame \<open>c\<close> to frame \<open>i\<close> in a
  pool of \<open>n\<close> frames.\<close>

definition dist :: "nat \<Rightarrow> FrameId \<Rightarrow> FrameId \<Rightarrow> nat" where
  "dist n c i = (if c \<le> i then i - c else i + n - c)"

text \<open>The state after a page has been put into a frame, as the miss path of
  \<^verbatim>\<open>readPage\<close> and \<^verbatim>\<open>allocPage\<close> do once \<open>allocBuf\<close> has returned the frame.\<close>

definition installed :: "FrameId \<Rightarrow> FileId \<Rightarrow> PageId \<Rightarrow> Page \<Rightarrow> BufMgr \<Rightarrow> BufMgr" where
  "installed i f p pg s =
     s\<lparr>bufPool := (bufPool s)[i := pg],
       bufDescTable := (bufDescTable s)[i := Set f p (bufDescTable s ! i)],
       hashTable := (hashTable s)((f, p) \<mapsto> i)\<rparr>"

text \<open>A frame that is resident and belongs to file \<open>f\<close>.\<close>

definition belongs :: "FileId \<Rightarrow> BufDesc \<Rightarrow> bool" where
  "belongs f d \<longleftrightarrow> valid d \<and> file_ptr d = Some f"

text \<open>A descriptor as \<^verbatim>\<open>Set\<close> leaves it.\<close>

definition fresh :: "BufDesc \<Rightarrow> bool" where
  "fresh d \<longleftrightarrow> (case file_ptr d of None \<Rightarrow> False | Some f \<Rightarrow> d = Set f (pageNo d) d)"

text \<open>The calls of \<^verbatim>\<open>writePage\<close> the backend has observed between two states, the second
  reached from the first.\<close>

definition new_writes :: "BufMgr \<Rightarrow> BufMgr \<Rightarrow> (FileId \<times> Page) list" where
  "new_writes s s' = drop (length (writes (backend s))) (writes (backend s'))"

section \<open>Example pools\<close>

definition ex_disk :: Storage where
  "ex_disk = \<lparr>files = (\<lambda>f. if f = 1 then [(1, ''a''), (2, ''b''), (3, ''c'')] else []),
              writes = []\<rparr>"

text \<open>A pool whose second frame is not valid but has its dirty flag set.\<close>

definition ex_corrupt :: BufMgr where
  "ex_corrupt =
     (BufMgr_init 2 ex_disk)
       \<lparr>bufDescTable :=
          (bufDescTable (BufMgr_init 2 ex_disk))
            [1 := (bufDescTable (BufMgr_init 2 ex_disk) ! 1)\<lparr>dirty := True\<rparr>]\<rparr>"

section \<open>The invariant of the pool\<close>

definition sizes_ok :: "BufMgr \<Rightarrow> bool" where
  "sizes_ok s \<longleftrightarrow>
     0 < numBufs s \<and> numBufs s < 2 ^ 32 \<and> length (bufDescTable s) = numBufs s \<and>
     length (bufPool s) = numBufs s \<and> clockHand s < numBufs s"

definition pins_ok :: "BufMgr \<Rightarrow> bool" where
  "pins_ok s \<longleftrightarrow> (\<forall>i < numBufs s. 0 \<le> pinCnt (bufDescTable s ! i))"

text \<open>The invariant of section 3 of the specification: a frame that is not valid has
  every other field at its cleared default.\<close>

definition corrupt :: "BufDesc \<Rightarrow> bool" where
  "corrupt d \<longleftrightarrow>
     \<not> valid d \<and> (pinCnt d \<noteq> 0 \<or> file_ptr d \<noteq> None \<or> pageNo d \<noteq> INVALID_NUMBER \<or> dirty d \<or> refbit d)"

definition free_ok :: "BufMgr \<Rightarrow> bool" where
  "free_ok s \<longleftrightarrow> (\<forall>i < numBufs s. \<not> corrupt (bufDescTable s ! i))"

text \<open>The index and the descriptor table agree, and a resident frame's slot holds the
  page the descriptor names.\<close>

definition index_ok :: "BufMgr \<Rightarrow> bool" where
  "index_ok s \<longleftrightarrow>
     (\<forall>f p i. hashTable s (f, p) = Some i \<longrightarrow>
        i < numBufs s \<and> valid (bufDescTable s ! i) \<and>
        file_ptr (bufDescTable s ! i) = Some f \<and> pageNo (bufDescTable s ! i) = p) \<and>
     (\<forall>i < numBufs s. valid (bufDescTable s ! i) \<longrightarrow>
        (\<exists>f. file_ptr (bufDescTable s ! i) = Some f \<and>
             hashTable s (f, pageNo (bufDescTable s ! i)) = Some i) \<and>
        page_number (bufPool s ! i) = pageNo (bufDescTable s ! i))"

definition pool_inv :: "BufMgr \<Rightarrow> bool" where
  "pool_inv s \<longleftrightarrow> sizes_ok s \<and> pins_ok s \<and> free_ok s \<and> index_ok s"

section \<open>Basic facts\<close>

lemma index_ok_frame:
  "index_ok s \<Longrightarrow> i < numBufs s \<Longrightarrow> valid (bufDescTable s ! i) \<Longrightarrow>
   \<exists>f. file_ptr (bufDescTable s ! i) = Some f \<and>
       hashTable s (f, pageNo (bufDescTable s ! i)) = Some i \<and>
       page_number (bufPool s ! i) = pageNo (bufDescTable s ! i)"
  unfolding index_ok_def by blast

lemma index_ok_entry:
  "index_ok s \<Longrightarrow> hashTable s (f, p) = Some i \<Longrightarrow>
   i < numBufs s \<and> valid (bufDescTable s ! i) \<and>
   file_ptr (bufDescTable s ! i) = Some f \<and> pageNo (bufDescTable s ! i) = p"
  unfolding index_ok_def by blast

lemma index_okI:
  assumes "\<And>f p i. hashTable s (f, p) = Some i \<Longrightarrow>
        i < numBufs s \<and> valid (bufDescTable s ! i) \<and>
        file_ptr (bufDescTable s ! i) = Some f \<and> pageNo (bufDescTable s ! i) = p"
    and "\<And>i. i < numBufs s \<Longrightarrow> valid (bufDescTable s ! i) \<Longrightarrow>
        (\<exists>f. file_ptr (bufDescTable s ! i) = Some f \<and>
             hashTable s (f, pageNo (bufDescTable s ! i)) = Some i) \<and>
        page_number (bufPool s ! i) = pageNo (bufDescTable s ! i)"
  shows "index_ok s"
  unfolding index_ok_def using assms by blast

lemma pool_invD:
  "pool_inv s \<Longrightarrow> sizes_ok s" "pool_inv s \<Longrightarrow> pins_ok s"
  "pool_inv s \<Longrightarrow> free_ok s" "pool_inv s \<Longrightarrow> index_ok s"
  by (simp_all add: pool_inv_def)

lemma sizes_okD:
  "sizes_ok s \<Longrightarrow> 0 < numBufs s" "sizes_ok s \<Longrightarrow> numBufs s < 2 ^ 32"
  "sizes_ok s \<Longrightarrow> length (bufDescTable s) = numBufs s"
  "sizes_ok s \<Longrightarrow> length (bufPool s) = numBufs s"
  "sizes_ok s \<Longrightarrow> clockHand s < numBufs s"
  by (simp_all add: sizes_ok_def)

lemma advanceClock_simps:
  "numBufs (advanceClock s) = numBufs s" "bufDescTable (advanceClock s) = bufDescTable s"
  "bufPool (advanceClock s) = bufPool s" "hashTable (advanceClock s) = hashTable s"
  "backend (advanceClock s) = backend s"
  by (simp_all add: advanceClock_def)

lemma clockHand_advanceClock:
  "sizes_ok s \<Longrightarrow> clockHand (advanceClock s) = Suc (clockHand s) mod numBufs s"
  by (simp add: advanceClock_def sizes_ok_def)

lemma sizes_ok_advanceClock: "sizes_ok s \<Longrightarrow> sizes_ok (advanceClock s)"
  by (simp add: sizes_ok_def advanceClock_def)

lemma pool_inv_advanceClock: "pool_inv s \<Longrightarrow> pool_inv (advanceClock s)"
  by (simp add: pool_inv_def sizes_ok_def pins_ok_def free_ok_def index_ok_def advanceClock_def)

lemma pool_inv_clear_refbit:
  assumes "pool_inv s" "i < numBufs s" "valid (bufDescTable s ! i)"
  shows "pool_inv (s\<lparr>bufDescTable := (bufDescTable s)[i := (bufDescTable s ! i)\<lparr>refbit := False\<rparr>]\<rparr>)"
proof -
  let ?s = "s\<lparr>bufDescTable := (bufDescTable s)[i := (bufDescTable s ! i)\<lparr>refbit := False\<rparr>]\<rparr>"
  have len: "length (bufDescTable s) = numBufs s" using assms(1) by (simp add: pool_inv_def sizes_ok_def)
  have 1: "sizes_ok ?s" using assms(1) by (simp add: pool_inv_def sizes_ok_def)
  have 2: "pins_ok ?s" using assms len by (simp add: pool_inv_def pins_ok_def nth_list_update)
  have 3: "free_ok ?s" using assms len by (simp add: pool_inv_def free_ok_def corrupt_def nth_list_update)
  have 4: "index_ok ?s" using pool_invD(4)[OF assms(1)] len assms(2,3)
    unfolding index_ok_def by (simp add: nth_list_update)
  show ?thesis using 1 2 3 4 by (simp add: pool_inv_def)
qed

lemma evictFrame_eq:
  assumes "index_ok s" "i < numBufs s" "valid (bufDescTable s ! i)"
  shows "evictFrame i s = (Inr (), evicted i s)"
proof -
  from index_ok_frame[OF assms] obtain f where f: "file_ptr (bufDescTable s ! i) = Some f"
    "hashTable s (f, pageNo (bufDescTable s ! i)) = Some i"
    by blast
  then show ?thesis
    by (simp add: evictFrame_def evicted_def Let_def hash_remove_def)
qed

lemma evicted_simps:
  "numBufs (evicted i s) = numBufs s" "bufPool (evicted i s) = bufPool s"
  "clockHand (evicted i s) = clockHand s"
  "bufDescTable (evicted i s) = (bufDescTable s)[i := Clear (bufDescTable s ! i)]"
  by (simp_all add: evicted_def Let_def)

lemma pool_inv_evicted:
  assumes "pool_inv s" "i < numBufs s" "valid (bufDescTable s ! i)"
  shows "pool_inv (evicted i s)"
proof -
  from index_ok_frame[OF pool_invD(4)[OF assms(1)] assms(2,3)]
  obtain f where f: "file_ptr (bufDescTable s ! i) = Some f"
    "hashTable s (f, pageNo (bufDescTable s ! i)) = Some i"
    by blast
  have len: "length (bufDescTable s) = numBufs s" using assms(1) by (simp add: pool_inv_def sizes_ok_def)
  have 1: "sizes_ok (evicted i s)" using assms(1)
    by (simp add: pool_inv_def sizes_ok_def evicted_simps)
  have 2: "pins_ok (evicted i s)" using assms len
    by (simp add: pool_inv_def pins_ok_def evicted_simps nth_list_update Clear_def)
  have 3: "free_ok (evicted i s)" using assms len
    by (simp add: pool_inv_def free_ok_def corrupt_def evicted_simps nth_list_update Clear_def)
  have 4: "index_ok (evicted i s)"
  proof (rule index_okI)
    fix g q j assume h: "hashTable (evicted i s) (g, q) = Some j"
    then have neq: "(g, q) \<noteq> (f, pageNo (bufDescTable s ! i))" and old: "hashTable s (g, q) = Some j"
      using f by (auto simp: evicted_def Let_def split: if_splits)
    from index_ok_entry[OF pool_invD(4)[OF assms(1)] old]
    have j: "j < numBufs s" "valid (bufDescTable s ! j)"
      "file_ptr (bufDescTable s ! j) = Some g" "pageNo (bufDescTable s ! j) = q"
      by simp_all
    with neq f have "j \<noteq> i" by auto
    with j show "j < numBufs (evicted i s) \<and> valid (bufDescTable (evicted i s) ! j) \<and>
        file_ptr (bufDescTable (evicted i s) ! j) = Some g \<and> pageNo (bufDescTable (evicted i s) ! j) = q"
      by (simp add: evicted_simps)
  next
    fix j assume j: "j < numBufs (evicted i s)" and v: "valid (bufDescTable (evicted i s) ! j)"
    from j have j': "j < numBufs s" by (simp add: evicted_simps)
    have ji: "j \<noteq> i" using v j' len by (auto simp: evicted_simps Clear_def)
    then have same: "bufDescTable (evicted i s) ! j = bufDescTable s ! j" "bufPool (evicted i s) ! j = bufPool s ! j"
      by (simp_all add: evicted_simps)
    with v have vj: "valid (bufDescTable s ! j)" by simp
    from index_ok_frame[OF pool_invD(4)[OF assms(1)] j' vj]
    obtain g where g: "file_ptr (bufDescTable s ! j) = Some g"
      "hashTable s (g, pageNo (bufDescTable s ! j)) = Some j"
      "page_number (bufPool s ! j) = pageNo (bufDescTable s ! j)"
      by blast
    from g(2) f(2) ji have "(g, pageNo (bufDescTable s ! j)) \<noteq> (f, pageNo (bufDescTable s ! i))" by auto
    then have "hashTable (evicted i s) (g, pageNo (bufDescTable s ! j)) = Some j"
      using g(2) f(1) by (auto simp: evicted_def Let_def)
    with g same show "(\<exists>fa. file_ptr (bufDescTable (evicted i s) ! j) = Some fa \<and>
         hashTable (evicted i s) (fa, pageNo (bufDescTable (evicted i s) ! j)) = Some j) \<and>
        page_number (bufPool (evicted i s) ! j) = pageNo (bufDescTable (evicted i s) ! j)"
      by simp
  qed
  show ?thesis using 1 2 3 4 by (simp add: pool_inv_def)
qed

section \<open>The sweep\<close>

lemma allocBuf_loop_Suc:
  "allocBuf_loop (Suc m) s =
     (let d = bufDescTable s ! clockHand s in
      if \<not> valid d then (Inr (), Suc m, s)
      else if refbit d then allocBuf_loop m (advanceClock (clearRef s))
      else if pinCnt d > 0 then allocBuf_loop m (advanceClock s)
      else (case evictFrame (clockHand s) s of
              (Inl e, s') \<Rightarrow> (Inl e, Suc m, s')
            | (Inr u, s') \<Rightarrow> (Inr (), Suc m, s')))"
  by (simp add: clearRef_def Let_def)

lemma allocBuf_search_Suc:
  "allocBuf_search (Suc m) s =
     (let d = bufDescTable s ! clockHand s in
      if \<not> valid d then (Suc m, s)
      else if refbit d then allocBuf_search m (advanceClock (clearRef s))
      else if pinCnt d > 0 then allocBuf_search m (advanceClock s)
      else (Suc m, s))"
  by (simp add: clearRef_def Let_def)

declare allocBuf_loop.simps(2) [simp del] allocBuf_search.simps(2) [simp del]

lemma clearRef_simps:
  "numBufs (clearRef s) = numBufs s" "bufPool (clearRef s) = bufPool s"
  "hashTable (clearRef s) = hashTable s" "backend (clearRef s) = backend s"
  "clockHand (clearRef s) = clockHand s"
  "length (bufDescTable (clearRef s)) = length (bufDescTable s)"
  by (simp_all add: clearRef_def)

lemma pool_inv_clearRef:
  "pool_inv s \<Longrightarrow> valid (bufDescTable s ! clockHand s) \<Longrightarrow> pool_inv (clearRef s)"
  unfolding clearRef_def
  by (rule pool_inv_clear_refbit) (simp_all add: pool_inv_def sizes_ok_def)

lemma hand_step:
  assumes "0 < n" "mb \<le> m"
  shows "(Suc c mod n + (m - mb)) mod n = (c + (Suc m - mb)) mod n"
proof -
  have "(Suc c mod n + (m - mb)) mod n = (Suc c + (m - mb)) mod n"
    by (simp add: mod_add_left_eq)
  also have "Suc c + (m - mb) = c + (Suc m - mb)" using assms by simp
  finally show ?thesis .
qed

lemma allocBuf_loop_inv:
  "pool_inv s \<Longrightarrow> allocBuf_loop m s = (r, mb, s') \<Longrightarrow>
   r = Inr () \<and> pool_inv s' \<and> numBufs s' = numBufs s \<and> bufPool s' = bufPool s \<and> mb \<le> m \<and>
   clockHand s' = (clockHand s + (m - mb)) mod numBufs s"
proof (induction m arbitrary: s)
  case 0
  then show ?case by (simp add: pool_inv_def sizes_ok_def)
next
  case (Suc m)
  let ?d = "bufDescTable s ! clockHand s"
  have sz: "sizes_ok s" using Suc.prems(1) by (rule pool_invD)
  have c: "clockHand s < numBufs s" and n: "0 < numBufs s" using sz by (simp_all add: sizes_ok_def)
  consider (free) "\<not> valid ?d" | (ref) "valid ?d" "refbit ?d"
    | (pin) "valid ?d" "\<not> refbit ?d" "0 < pinCnt ?d"
    | (victim) "valid ?d" "\<not> refbit ?d" "\<not> 0 < pinCnt ?d"
    by blast
  then show ?case
  proof cases
    case free
    with Suc.prems c show ?thesis by (simp add: allocBuf_loop_Suc)
  next
    case ref
    then have eq: "allocBuf_loop m (advanceClock (clearRef s)) = (r, mb, s')"
      using Suc.prems(2) by (simp add: allocBuf_loop_Suc)
    have inv: "pool_inv (advanceClock (clearRef s))"
      using Suc.prems(1) ref(1) by (intro pool_inv_advanceClock pool_inv_clearRef)
    have szc: "sizes_ok (clearRef s)" using pool_inv_clearRef[OF Suc.prems(1) ref(1)] by (rule pool_invD)
    from Suc.IH[OF inv eq] have ih: "r = Inr ()" "pool_inv s'" "numBufs s' = numBufs s"
      "bufPool s' = bufPool s" "mb \<le> m"
      "clockHand s' = (Suc (clockHand s) mod numBufs s + (m - mb)) mod numBufs s"
      by (simp_all add: advanceClock_simps clearRef_simps clockHand_advanceClock[OF szc])
    have "clockHand s' = (clockHand s + (Suc m - mb)) mod numBufs s"
      by (simp only: ih(6) hand_step[OF n ih(5)])
    with ih show ?thesis by simp
  next
    case pin
    then have eq: "allocBuf_loop m (advanceClock s) = (r, mb, s')"
      using Suc.prems(2) by (simp add: allocBuf_loop_Suc)
    from Suc.IH[OF pool_inv_advanceClock[OF Suc.prems(1)] eq]
    have ih: "r = Inr ()" "pool_inv s'" "numBufs s' = numBufs s"
      "bufPool s' = bufPool s" "mb \<le> m"
      "clockHand s' = (Suc (clockHand s) mod numBufs s + (m - mb)) mod numBufs s"
      by (simp_all add: advanceClock_simps clockHand_advanceClock[OF sz])
    have "clockHand s' = (clockHand s + (Suc m - mb)) mod numBufs s"
      by (simp only: ih(6) hand_step[OF n ih(5)])
    with ih show ?thesis by simp
  next
    case victim
    have ev: "evictFrame (clockHand s) s = (Inr (), evicted (clockHand s) s)"
      using Suc.prems(1) c victim(1) by (intro evictFrame_eq pool_invD)
    have "pool_inv (evicted (clockHand s) s)"
      using Suc.prems(1) c victim(1) by (rule pool_inv_evicted)
    with victim ev Suc.prems(2) c show ?thesis
      by (auto simp: allocBuf_loop_Suc evicted_simps)
  qed
qed

lemma same_but_refbit_refl: "same_but_refbit d d"
  by (simp add: same_but_refbit_def)

lemma same_but_refbit_trans:
  "same_but_refbit a b \<Longrightarrow> same_but_refbit b c \<Longrightarrow> same_but_refbit a c"
  by (simp add: same_but_refbit_def)

lemma same_but_refbit_clear: "same_but_refbit d (d\<lparr>refbit := False\<rparr>)"
  by (simp add: same_but_refbit_def)

lemma same_but_refbit_fields:
  assumes "same_but_refbit d d'"
  shows "valid d' = valid d" "pinCnt d' = pinCnt d" "file_ptr d' = file_ptr d"
    "pageNo d' = pageNo d" "dirty d' = dirty d" "frameNo d' = frameNo d"
proof -
  from assms have e: "d'\<lparr>refbit := False\<rparr> = d\<lparr>refbit := False\<rparr>" by (simp add: same_but_refbit_def)
  from arg_cong[OF e, of valid] show "valid d' = valid d" by simp
  from arg_cong[OF e, of pinCnt] show "pinCnt d' = pinCnt d" by simp
  from arg_cong[OF e, of file_ptr] show "file_ptr d' = file_ptr d" by simp
  from arg_cong[OF e, of pageNo] show "pageNo d' = pageNo d" by simp
  from arg_cong[OF e, of dirty] show "dirty d' = dirty d" by simp
  from arg_cong[OF e, of frameNo] show "frameNo d' = frameNo d" by simp
qed

lemma allocBuf_loop_search:
  "allocBuf_loop m s =
     (case allocBuf_search m s of
        (mb, t) \<Rightarrow>
          if mb = 0 \<or> \<not> valid (bufDescTable t ! clockHand t) then (Inr (), mb, t)
          else (case evictFrame (clockHand t) t of
                  (Inl e, t') \<Rightarrow> (Inl e, mb, t')
                | (Inr u, t') \<Rightarrow> (Inr (), mb, t')))"
proof (induction m arbitrary: s)
  case 0
  show ?case by simp
next
  case (Suc m)
  show ?case
    by (simp add: allocBuf_loop_Suc allocBuf_search_Suc Let_def Suc.IH)
qed

lemma clearRef_nth:
  "clockHand s < length (bufDescTable s) \<Longrightarrow>
   same_but_refbit (bufDescTable s ! j) (bufDescTable (clearRef s) ! j)"
  by (simp add: clearRef_def nth_list_update same_but_refbit_clear same_but_refbit_refl)

lemma sizes_ok_clearRef: "sizes_ok s \<Longrightarrow> sizes_ok (clearRef s)"
  by (simp add: sizes_ok_def clearRef_def)

lemma allocBuf_search_props:
  "sizes_ok s \<Longrightarrow> allocBuf_search m s = (mb, t) \<Longrightarrow>
   sizes_ok t \<and> numBufs t = numBufs s \<and> bufPool t = bufPool s \<and> hashTable t = hashTable s \<and>
   backend t = backend s \<and> mb \<le> m \<and>
   clockHand t = (clockHand s + (m - mb)) mod numBufs s \<and>
   (\<forall>j. same_but_refbit (bufDescTable s ! j) (bufDescTable t ! j)) \<and>
   (0 < mb \<longrightarrow> \<not> valid (bufDescTable t ! clockHand t) \<or>
      (\<not> refbit (bufDescTable t ! clockHand t) \<and> \<not> 0 < pinCnt (bufDescTable t ! clockHand t)))"
proof (induction m arbitrary: s)
  case 0
  then show ?case by (simp add: sizes_ok_def same_but_refbit_refl)
next
  case (Suc m)
  let ?d = "bufDescTable s ! clockHand s"
  have sz: "sizes_ok s" by (rule Suc.prems(1))
  have c: "clockHand s < numBufs s" and n: "0 < numBufs s"
    and len: "length (bufDescTable s) = numBufs s" using sz by (simp_all add: sizes_ok_def)
  consider (stop) "\<not> valid ?d \<or> (\<not> refbit ?d \<and> \<not> 0 < pinCnt ?d)" | (ref) "valid ?d" "refbit ?d"
    | (pin) "valid ?d" "\<not> refbit ?d" "0 < pinCnt ?d"
    by blast
  then show ?case
  proof cases
    case stop
    then have "mb = Suc m" "t = s" using Suc.prems(2) by (auto simp: allocBuf_search_Suc Let_def split: if_splits)
    with stop sz c show ?thesis by (simp add: same_but_refbit_refl)
  next
    case ref
    then have eq: "allocBuf_search m (advanceClock (clearRef s)) = (mb, t)"
      using Suc.prems(2) by (simp add: allocBuf_search_Suc)
    have szc: "sizes_ok (clearRef s)" using sz by (rule sizes_ok_clearRef)
    from Suc.IH[OF sizes_ok_advanceClock[OF szc] eq,
        unfolded advanceClock_simps clearRef_simps clockHand_advanceClock[OF szc]]
    have ih: "sizes_ok t" "numBufs t = numBufs s" "bufPool t = bufPool s" "hashTable t = hashTable s"
      "backend t = backend s" "mb \<le> m"
      "clockHand t = (Suc (clockHand s) mod numBufs s + (m - mb)) mod numBufs s"
      "\<And>j. same_but_refbit (bufDescTable (clearRef s) ! j) (bufDescTable t ! j)"
      "0 < mb \<longrightarrow> \<not> valid (bufDescTable t ! clockHand t) \<or>
        (\<not> refbit (bufDescTable t ! clockHand t) \<and> \<not> 0 < pinCnt (bufDescTable t ! clockHand t))"
      by blast+
    have h: "clockHand t = (clockHand s + (Suc m - mb)) mod numBufs s"
      by (simp only: ih(7) hand_step[OF n ih(6)])
    have sb: "\<And>j. same_but_refbit (bufDescTable s ! j) (bufDescTable t ! j)"
      using clearRef_nth[of s] c len ih(8) same_but_refbit_trans by (metis (no_types))
    from ih(1-6,9) h sb show ?thesis by simp
  next
    case pin
    then have eq: "allocBuf_search m (advanceClock s) = (mb, t)"
      using Suc.prems(2) by (simp add: allocBuf_search_Suc)
    from Suc.IH[OF sizes_ok_advanceClock[OF sz] eq,
        unfolded advanceClock_simps clockHand_advanceClock[OF sz]]
    have ih: "sizes_ok t" "numBufs t = numBufs s" "bufPool t = bufPool s" "hashTable t = hashTable s"
      "backend t = backend s" "mb \<le> m"
      "clockHand t = (Suc (clockHand s) mod numBufs s + (m - mb)) mod numBufs s"
      "\<And>j. same_but_refbit (bufDescTable s ! j) (bufDescTable t ! j)"
      "0 < mb \<longrightarrow> \<not> valid (bufDescTable t ! clockHand t) \<or>
        (\<not> refbit (bufDescTable t ! clockHand t) \<and> \<not> 0 < pinCnt (bufDescTable t ! clockHand t))"
      by blast+
    have h: "clockHand t = (clockHand s + (Suc m - mb)) mod numBufs s"
      by (simp only: ih(7) hand_step[OF n ih(6)])
    from ih(1-6,8,9) h show ?thesis by simp
  qed
qed

lemma pool_inv_allocBuf_search:
  "pool_inv s \<Longrightarrow> allocBuf_search m s = (mb, t) \<Longrightarrow> pool_inv t"
proof (induction m arbitrary: s)
  case 0
  then show ?case by simp
next
  case (Suc m)
  let ?d = "bufDescTable s ! clockHand s"
  consider (stop) "\<not> valid ?d \<or> (\<not> refbit ?d \<and> \<not> 0 < pinCnt ?d)" | (ref) "valid ?d" "refbit ?d"
    | (pin) "valid ?d" "\<not> refbit ?d" "0 < pinCnt ?d"
    by blast
  then show ?case
  proof cases
    case stop
    then have "t = s" using Suc.prems(2) by (auto simp: allocBuf_search_Suc Let_def split: if_splits)
    with Suc.prems(1) show ?thesis by simp
  next
    case ref
    then have eq: "allocBuf_search m (advanceClock (clearRef s)) = (mb, t)"
      using Suc.prems(2) by (simp add: allocBuf_search_Suc)
    have "pool_inv (advanceClock (clearRef s))"
      using Suc.prems(1) ref(1) by (intro pool_inv_advanceClock pool_inv_clearRef)
    from Suc.IH[OF this eq] show ?thesis .
  next
    case pin
    then have eq: "allocBuf_search m (advanceClock s) = (mb, t)"
      using Suc.prems(2) by (simp add: allocBuf_search_Suc)
    from Suc.IH[OF pool_inv_advanceClock[OF Suc.prems(1)] eq] show ?thesis .
  qed
qed

text \<open>What \<open>allocBuf\<close> computes on a pool that satisfies the invariant, in terms of the
  state in which the sweep stops.\<close>

lemma allocBuf_eq:
  assumes "pool_inv s"
    and "allocBuf_search ((2 * numBufs s) mod 2 ^ 32) (advanceClock s) = (mb, t)"
  shows "allocBuf s =
    (if mb = 0 then (Inl BufferExceededException, t)
     else if \<not> valid (bufDescTable t ! clockHand t) then (Inr (clockHand t), t)
     else (Inr (clockHand t), evicted (clockHand t) t))"
proof -
  have n: "numBufs s \<noteq> 0" using assms(1) by (simp add: pool_inv_def sizes_ok_def)
  have invt: "pool_inv t"
    using pool_inv_allocBuf_search[OF pool_inv_advanceClock[OF assms(1)] assms(2)] .
  have c: "clockHand t < numBufs t" using invt by (simp add: pool_inv_def sizes_ok_def)
  show ?thesis
  proof (cases "mb = 0 \<or> \<not> valid (bufDescTable t ! clockHand t)")
    case True
    then show ?thesis using n assms(2)
      by (auto simp: allocBuf_def Let_def allocBuf_loop_search)
  next
    case False
    then have v: "valid (bufDescTable t ! clockHand t)" by simp
    have ev: "evictFrame (clockHand t) t = (Inr (), evicted (clockHand t) t)"
      using invt c v by (intro evictFrame_eq pool_invD)
    show ?thesis using n assms(2) False ev
      by (simp add: allocBuf_def Let_def allocBuf_loop_search evicted_simps)
  qed
qed

lemma hashTable_evicted:
  "hashTable (evicted i s) k = None \<or> hashTable (evicted i s) k = hashTable s k"
  by (simp add: evicted_def Let_def)

lemma allocBuf_result:
  assumes "pool_inv s" "allocBuf s = (r, s')"
  shows "pool_inv s'" "numBufs s' = numBufs s"
    "r = Inl BufferExceededException \<or>
     (r = Inr (clockHand s') \<and> \<not> valid (bufDescTable s' ! clockHand s'))"
    "hashTable s' k = None \<or> hashTable s' k = hashTable s k"
proof -
  obtain mb t where st: "allocBuf_search ((2 * numBufs s) mod 2 ^ 32) (advanceClock s) = (mb, t)"
    by (cases "allocBuf_search ((2 * numBufs s) mod 2 ^ 32) (advanceClock s)")
  have inva: "pool_inv (advanceClock s)" using assms(1) by (rule pool_inv_advanceClock)
  have invt: "pool_inv t" using pool_inv_allocBuf_search[OF inva st] .
  have c: "clockHand t < numBufs t" and len: "length (bufDescTable t) = numBufs t"
    using invt by (simp_all add: pool_inv_def sizes_ok_def)
  note props = allocBuf_search_props[OF pool_invD(1)[OF inva] st, unfolded advanceClock_simps]
  have nt: "numBufs t = numBufs s" and ht: "hashTable t = hashTable s" using props by blast+
  note eq = allocBuf_eq[OF assms(1) st, unfolded assms(2)]
  consider (ex) "mb = 0" | (free) "mb \<noteq> 0" "\<not> valid (bufDescTable t ! clockHand t)"
    | (victim) "mb \<noteq> 0" "valid (bufDescTable t ! clockHand t)" by blast
  then have "pool_inv s' \<and> numBufs s' = numBufs s \<and>
    (r = Inl BufferExceededException \<or>
     (r = Inr (clockHand s') \<and> \<not> valid (bufDescTable s' ! clockHand s'))) \<and>
    (hashTable s' k = None \<or> hashTable s' k = hashTable s k)"
  proof cases
    case ex
    with eq invt nt ht show ?thesis by simp
  next
    case free
    with eq invt nt ht show ?thesis by simp
  next
    case victim
    have "pool_inv (evicted (clockHand t) t)" using invt c victim(2) by (rule pool_inv_evicted)
    moreover have "hashTable (evicted (clockHand t) t) k = None \<or>
        hashTable (evicted (clockHand t) t) k = hashTable s k"
      using hashTable_evicted[of "clockHand t" t k] ht by simp
    ultimately show ?thesis using victim eq nt c len
      by (simp add: evicted_simps Clear_def)
  qed
  then show "pool_inv s'" "numBufs s' = numBufs s"
    "r = Inl BufferExceededException \<or>
     (r = Inr (clockHand s') \<and> \<not> valid (bufDescTable s' ! clockHand s'))"
    "hashTable s' k = None \<or> hashTable s' k = hashTable s k"
    by blast+
qed

section \<open>The operations keep the invariant\<close>

lemma installed_simps:
  "numBufs (installed i f p pg s) = numBufs s" "clockHand (installed i f p pg s) = clockHand s"
  "backend (installed i f p pg s) = backend s"
  "bufPool (installed i f p pg s) = (bufPool s)[i := pg]"
  "bufDescTable (installed i f p pg s) = (bufDescTable s)[i := Set f p (bufDescTable s ! i)]"
  "hashTable (installed i f p pg s) = (hashTable s)((f, p) \<mapsto> i)"
  by (simp_all add: installed_def)

lemma pool_inv_installed:
  assumes "pool_inv s" "i < numBufs s" "\<not> valid (bufDescTable s ! i)"
    "hashTable s (f, p) = None" "page_number pg = p"
  shows "pool_inv (installed i f p pg s)"
proof -
  let ?s = "installed i f p pg s"
  have len: "length (bufDescTable s) = numBufs s" "length (bufPool s) = numBufs s"
    using assms(1) by (simp_all add: pool_inv_def sizes_ok_def)
  have 1: "sizes_ok ?s" using assms(1) by (simp add: pool_inv_def sizes_ok_def installed_simps)
  have 2: "pins_ok ?s" using assms(1,2) len
    by (simp add: pool_inv_def pins_ok_def installed_simps nth_list_update Set_def)
  have 3: "free_ok ?s" using assms(1,2) len
    by (simp add: pool_inv_def free_ok_def corrupt_def installed_simps nth_list_update Set_def)
  have 4: "index_ok ?s"
  proof (rule index_okI)
    fix g q j assume h: "hashTable ?s (g, q) = Some j"
    show "j < numBufs ?s \<and> valid (bufDescTable ?s ! j) \<and>
        file_ptr (bufDescTable ?s ! j) = Some g \<and> pageNo (bufDescTable ?s ! j) = q"
    proof (cases "(g, q) = (f, p)")
      case True
      with h have "j = i" by (simp add: installed_simps)
      with True assms(2) len show ?thesis by (simp add: installed_simps Set_def)
    next
      case False
      with h have old: "hashTable s (g, q) = Some j" by (auto simp: installed_simps split: if_splits)
      from index_ok_entry[OF pool_invD(4)[OF assms(1)] old]
      have j: "j < numBufs s" "valid (bufDescTable s ! j)"
        "file_ptr (bufDescTable s ! j) = Some g" "pageNo (bufDescTable s ! j) = q"
        by simp_all
      with assms(3) have "j \<noteq> i" by auto
      with j show ?thesis by (simp add: installed_simps)
    qed
  next
    fix j assume j: "j < numBufs ?s" and v: "valid (bufDescTable ?s ! j)"
    from j have j': "j < numBufs s" by (simp add: installed_simps)
    show "(\<exists>fa. file_ptr (bufDescTable ?s ! j) = Some fa \<and>
         hashTable ?s (fa, pageNo (bufDescTable ?s ! j)) = Some j) \<and>
        page_number (bufPool ?s ! j) = pageNo (bufDescTable ?s ! j)"
    proof (cases "j = i")
      case True
      with assms(2,5) len show ?thesis by (simp add: installed_simps Set_def)
    next
      case False
      with v have vj: "valid (bufDescTable s ! j)" by (simp add: installed_simps)
      from index_ok_frame[OF pool_invD(4)[OF assms(1)] j' vj]
      obtain g where g: "file_ptr (bufDescTable s ! j) = Some g"
        "hashTable s (g, pageNo (bufDescTable s ! j)) = Some j"
        "page_number (bufPool s ! j) = pageNo (bufDescTable s ! j)"
        by blast
      from g(2) assms(4) have "(g, pageNo (bufDescTable s ! j)) \<noteq> (f, p)" by auto
      with g False show ?thesis by (simp add: installed_simps)
    qed
  qed
  show ?thesis using 1 2 3 4 by (simp add: pool_inv_def)
qed

lemma file_readPage_number: "file_readPage f p st = Inr pg \<Longrightarrow> page_number pg = p"
  by (auto simp: file_readPage_def split: option.splits)

lemma readPage_hit:
  "hashTable s (f, p) = Some i \<Longrightarrow>
   readPage f p s =
     (Inr i, s\<lparr>bufDescTable := (bufDescTable s)
        [i := (bufDescTable s ! i)\<lparr>pinCnt := pinCnt (bufDescTable s ! i) + 1, refbit := True\<rparr>]\<rparr>)"
  by (simp add: readPage_def Let_def)

lemma readPage_miss:
  "hashTable s (f, p) = None \<Longrightarrow>
   readPage f p s =
     (case allocBuf s of
        (Inl e, s1) \<Rightarrow> (Inl e, s1)
      | (Inr i, s1) \<Rightarrow>
          (case file_readPage f p (backend s1) of
             Inl e \<Rightarrow> (Inl e, s1)
           | Inr pg \<Rightarrow>
               (case hashTable s1 (f, p) of
                  Some j \<Rightarrow> (Inl (HashAlreadyPresentException f p j),
                             s1\<lparr>bufPool := (bufPool s1)[i := pg],
                                bufDescTable := (bufDescTable s1)[i := Set f p (bufDescTable s1 ! i)]\<rparr>)
                | None \<Rightarrow> (Inr i, installed i f p pg s1))))"
  by (simp add: readPage_def Let_def hash_insert_def installed_def
      split: prod.splits sum.splits option.splits)

lemma pool_inv_pin:
  assumes "pool_inv s" "hashTable s (f, p) = Some i"
  shows "pool_inv (s\<lparr>bufDescTable := (bufDescTable s)
        [i := (bufDescTable s ! i)\<lparr>pinCnt := pinCnt (bufDescTable s ! i) + 1, refbit := True\<rparr>]\<rparr>)"
proof -
  let ?s = "s\<lparr>bufDescTable := (bufDescTable s)
        [i := (bufDescTable s ! i)\<lparr>pinCnt := pinCnt (bufDescTable s ! i) + 1, refbit := True\<rparr>]\<rparr>"
  from index_ok_entry[OF pool_invD(4)[OF assms(1)] assms(2)]
  have i: "i < numBufs s" "valid (bufDescTable s ! i)" by simp_all
  have len: "length (bufDescTable s) = numBufs s" using assms(1) by (simp add: pool_inv_def sizes_ok_def)
  have 1: "sizes_ok ?s" using assms(1) by (simp add: pool_inv_def sizes_ok_def)
  have 2: "pins_ok ?s" using assms(1) i len by (simp add: pool_inv_def pins_ok_def nth_list_update)
  have 3: "free_ok ?s" using assms(1) i len by (simp add: pool_inv_def free_ok_def corrupt_def nth_list_update)
  have 4: "index_ok ?s" using pool_invD(4)[OF assms(1)] len i
    unfolding index_ok_def by (simp add: nth_list_update)
  show ?thesis using 1 2 3 4 by (simp add: pool_inv_def)
qed

lemma pool_inv_readPage:
  assumes "pool_inv s" "readPage f p s = (r, s')"
  shows "pool_inv s'"
proof (cases "hashTable s (f, p)")
  case (Some i)
  with assms(2) pool_inv_pin[OF assms(1) Some] show ?thesis by (simp add: readPage_hit)
next
  case None
  obtain ra s1 where ab: "allocBuf s = (ra, s1)" by (cases "allocBuf s")
  note res = allocBuf_result[OF assms(1) ab]
  have h1: "hashTable s1 (f, p) = None" using res(4)[of "(f, p)"] None by auto
  from res(3) show ?thesis
  proof
    assume "ra = Inl BufferExceededException"
    with assms(2) None ab res(1) show ?thesis by (simp add: readPage_miss)
  next
    assume ok: "ra = Inr (clockHand s1) \<and> \<not> valid (bufDescTable s1 ! clockHand s1)"
    have c: "clockHand s1 < numBufs s1" using res(1) by (simp add: pool_inv_def sizes_ok_def)
    show ?thesis
    proof (cases "file_readPage f p (backend s1)")
      case (Inl e)
      with assms(2) None ab ok res(1) show ?thesis by (simp add: readPage_miss)
    next
      case (Inr pg)
      have "pool_inv (installed (clockHand s1) f p pg s1)"
        using res(1) c ok h1 file_readPage_number[OF Inr] by (intro pool_inv_installed) simp_all
      with assms(2) None ab ok Inr h1 show ?thesis by (simp add: readPage_miss)
    qed
  qed
qed

lemma pool_inv_backend: "pool_inv (s\<lparr>backend := b\<rparr>) = pool_inv s"
  by (simp add: pool_inv_def sizes_ok_def pins_ok_def free_ok_def index_ok_def)

lemma pool_inv_unPinPage:
  assumes "pool_inv s" "unPinPage f p dty s = (r, s')"
  shows "pool_inv s'"
proof (cases "hashTable s (f, p)")
  case None
  with assms show ?thesis by (simp add: unPinPage_def)
next
  case (Some i)
  let ?d = "bufDescTable s ! i"
  from index_ok_entry[OF pool_invD(4)[OF assms(1)] Some]
  have i: "i < numBufs s" "valid ?d" by simp_all
  have len: "length (bufDescTable s) = numBufs s" using assms(1) by (simp add: pool_inv_def sizes_ok_def)
  show ?thesis
  proof (cases "pinCnt ?d \<le> 0")
    case True
    with assms Some show ?thesis by (simp add: unPinPage_def)
  next
    case False
    let ?d2 = "if dty then ?d\<lparr>pinCnt := pinCnt ?d - 1, dirty := True\<rparr> else ?d\<lparr>pinCnt := pinCnt ?d - 1\<rparr>"
    have s': "s' = s\<lparr>bufDescTable := (bufDescTable s)[i := ?d2]\<rparr>"
      using assms(2) Some False by (auto simp: unPinPage_def Let_def)
    have 1: "sizes_ok s'" using assms(1) by (simp add: s' pool_inv_def sizes_ok_def)
    have 2: "pins_ok s'" using assms(1) i len False by (simp add: s' pool_inv_def pins_ok_def nth_list_update)
    have 3: "free_ok s'" using assms(1) i len by (simp add: s' pool_inv_def free_ok_def corrupt_def nth_list_update)
    have 4: "index_ok s'" using pool_invD(4)[OF assms(1)] len i
      unfolding index_ok_def by (simp add: s' nth_list_update)
    show ?thesis using 1 2 3 4 by (simp add: pool_inv_def)
  qed
qed

lemma pool_inv_allocPage:
  assumes "pool_inv s" "allocPage f s = (r, s')"
  shows "pool_inv s'"
proof -
  obtain new_pg st where al: "file_allocatePage f (backend s) = (new_pg, st)"
    by (cases "file_allocatePage f (backend s)")
  let ?s0 = "s\<lparr>backend := st\<rparr>"
  have inv0: "pool_inv ?s0" using assms(1) by (simp add: pool_inv_backend)
  obtain ra s1 where ab: "allocBuf ?s0 = (ra, s1)" by (cases "allocBuf ?s0")
  note res = allocBuf_result[OF inv0 ab]
  from res(3) show ?thesis
  proof
    assume "ra = Inl BufferExceededException"
    with assms(2) al ab res(1) show ?thesis by (simp add: allocPage_def)
  next
    assume ok: "ra = Inr (clockHand s1) \<and> \<not> valid (bufDescTable s1 ! clockHand s1)"
    have c: "clockHand s1 < numBufs s1" using res(1) by (simp add: pool_inv_def sizes_ok_def)
    show ?thesis
    proof (cases "hashTable s1 (f, page_number new_pg)")
      case (Some j)
      with assms(2) al ab ok res(1) show ?thesis by (simp add: allocPage_def hash_insert_def)
    next
      case None
      have "pool_inv (installed (clockHand s1) f (page_number new_pg) new_pg s1)"
        using res(1) c ok None by (intro pool_inv_installed) simp_all
      moreover have "s' = installed (clockHand s1) f (page_number new_pg) new_pg s1"
        using assms(2) al ab ok None
        by (cases s1) (auto simp: allocPage_def hash_insert_def installed_def)
      ultimately show ?thesis by simp
    qed
  qed
qed

lemma pool_inv_disposePage:
  assumes "pool_inv s" "disposePage f p s = (r, s')"
  shows "pool_inv s'"
proof (cases "file_deletePage f p (backend s)")
  case (Inl e)
  with assms show ?thesis by (simp add: disposePage_def)
next
  case (Inr st)
  let ?s1 = "s\<lparr>backend := st\<rparr>"
  have inv1: "pool_inv ?s1" using assms(1) by (simp add: pool_inv_backend)
  show ?thesis
  proof (cases "hashTable s (f, p)")
    case None
    with assms(2) Inr inv1 show ?thesis by (simp add: disposePage_def Let_def)
  next
    case (Some i)
    then have h1: "hashTable ?s1 (f, p) = Some i" by simp
    from index_ok_entry[OF pool_invD(4)[OF inv1] h1]
    have i: "i < numBufs ?s1" "valid (bufDescTable ?s1 ! i)"
      "file_ptr (bufDescTable ?s1 ! i) = Some f" "pageNo (bufDescTable ?s1 ! i) = p"
      by simp_all
    have "pool_inv (evicted i ?s1)" using inv1 i(1,2) by (rule pool_inv_evicted)
    then have "pool_inv ((evicted i ?s1)\<lparr>backend := st\<rparr>)" by (simp only: pool_inv_backend)
    moreover have "s' = (evicted i ?s1)\<lparr>backend := st\<rparr>"
      using assms(2) Inr Some i(3,4)
      by (cases s) (auto simp: disposePage_def Let_def evicted_def)
    ultimately show ?thesis by simp
  qed
qed

lemma pool_inv_flushFile_loop:
  "pool_inv s \<Longrightarrow> \<forall>i \<in> set js. i < numBufs s \<Longrightarrow> flushFile_loop f js s = (r, s') \<Longrightarrow>
   pool_inv s' \<and> numBufs s' = numBufs s"
proof (induction js arbitrary: s)
  case Nil
  then show ?case by simp
next
  case (Cons i js)
  let ?d = "bufDescTable s ! i"
  have i: "i < numBufs s" and js: "\<forall>j \<in> set js. j < numBufs s" using Cons.prems(2) by simp_all
  consider (bad) "corrupt ?d" | (skip) "\<not> corrupt ?d" "\<not> valid ?d \<or> file_ptr ?d \<noteq> Some f"
    | (pinned) "valid ?d" "file_ptr ?d = Some f" "0 < pinCnt ?d"
    | (go) "valid ?d" "file_ptr ?d = Some f" "\<not> 0 < pinCnt ?d"
    by blast
  then show ?case
  proof cases
    case bad
    with Cons.prems show ?thesis by (auto simp: corrupt_def Let_def)
  next
    case skip
    then have "flushFile_loop f js s = (r, s')" using Cons.prems(3) by (auto simp: corrupt_def Let_def)
    from Cons.IH[OF Cons.prems(1) js this] show ?thesis .
  next
    case pinned
    with Cons.prems show ?thesis by (auto simp: Let_def)
  next
    case go
    have ev: "evictFrame i s = (Inr (), evicted i s)"
      using Cons.prems(1) i go(1) by (intro evictFrame_eq pool_invD)
    have inv: "pool_inv (evicted i s)" using Cons.prems(1) i go(1) by (rule pool_inv_evicted)
    have "flushFile_loop f js (evicted i s) = (r, s')"
      using Cons.prems(3) go ev by (simp add: Let_def)
    from Cons.IH[OF inv _ this] js show ?thesis by (simp add: evicted_simps)
  qed
qed

lemma pool_inv_flushFile:
  assumes "pool_inv s" "flushFile f s = (r, s')"
  shows "pool_inv s'"
  using pool_inv_flushFile_loop[OF assms(1) _ assms(2)[unfolded flushFile_def]] by simp

lemma pool_inv_init:
  assumes "0 < bufs" "bufs < 2 ^ 32"
  shows "pool_inv (BufMgr_init bufs st)"
proof -
  have "bufs + 2 ^ 32 - 1 = (bufs - 1) + 2 ^ 32" using assms(1) by simp
  then have "(bufs + 2 ^ 32 - 1) mod 2 ^ 32 = (bufs - 1) mod 2 ^ 32" by (simp only: mod_add_self2)
  also have "\<dots> = bufs - 1" using assms(2) by simp
  finally have c: "clockHand (BufMgr_init bufs st) = bufs - 1" by (simp add: BufMgr_init_def)
  have 1: "sizes_ok (BufMgr_init bufs st)" using assms c
    by (simp add: sizes_ok_def) (simp add: BufMgr_init_def)
  have 2: "pins_ok (BufMgr_init bufs st)" by (simp add: pins_ok_def BufMgr_init_def)
  have 3: "free_ok (BufMgr_init bufs st)" by (simp add: free_ok_def corrupt_def BufMgr_init_def)
  have 4: "index_ok (BufMgr_init bufs st)" by (simp add: index_ok_def BufMgr_init_def)
  show ?thesis using 1 2 3 4 by (simp add: pool_inv_def)
qed

lemma pool_inv_exec: "pool_inv s \<Longrightarrow> pool_inv (exec x s)"
proof (cases x)
  case (ReadPage f p)
  assume "pool_inv s"
  then show ?thesis using pool_inv_readPage[of s f p] ReadPage by (cases "readPage f p s") simp
next
  case (UnPinPage f p dty)
  assume "pool_inv s"
  then show ?thesis using pool_inv_unPinPage[of s f p dty] UnPinPage by (cases "unPinPage f p dty s") simp
next
  case (AllocPage f)
  assume "pool_inv s"
  then show ?thesis using pool_inv_allocPage[of s f] AllocPage by (cases "allocPage f s") simp
next
  case (FlushFile f)
  assume "pool_inv s"
  then show ?thesis using pool_inv_flushFile[of s f] FlushFile by (cases "flushFile f s") simp
next
  case (DisposePage f p)
  assume "pool_inv s"
  then show ?thesis using pool_inv_disposePage[of s f p] DisposePage by (cases "disposePage f p s") simp
qed

lemma pool_inv_run: "pool_inv s \<Longrightarrow> pool_inv (run ops s)"
  unfolding run_def by (induction ops arbitrary: s) (simp_all add: pool_inv_exec)

section \<open>Evaluating the operations on a concrete pool\<close>

lemma allocBuf_loop_numeral:
  "allocBuf_loop (numeral k) s =
     (let d = bufDescTable s ! clockHand s in
      if \<not> valid d then (Inr (), numeral k, s)
      else if refbit d then
        allocBuf_loop (pred_numeral k)
          (advanceClock (s\<lparr>bufDescTable := (bufDescTable s)[clockHand s := d\<lparr>refbit := False\<rparr>]\<rparr>))
      else if pinCnt d > 0 then allocBuf_loop (pred_numeral k) (advanceClock s)
      else (case evictFrame (clockHand s) s of
              (Inl e, s') \<Rightarrow> (Inl e, numeral k, s')
            | (Inr u, s') \<Rightarrow> (Inr (), numeral k, s')))"
  unfolding numeral_eq_Suc by (simp add: allocBuf_loop.simps)

lemma allocBuf_search_numeral:
  "allocBuf_search (numeral k) s =
     (let d = bufDescTable s ! clockHand s in
      if \<not> valid d then (numeral k, s)
      else if refbit d then
        allocBuf_search (pred_numeral k)
          (advanceClock (s\<lparr>bufDescTable := (bufDescTable s)[clockHand s := d\<lparr>refbit := False\<rparr>]\<rparr>))
      else if pinCnt d > 0 then allocBuf_search (pred_numeral k) (advanceClock s)
      else (numeral k, s))"
  unfolding numeral_eq_Suc by (simp add: allocBuf_search.simps)

lemmas op_defs = run_def readPage_def unPinPage_def allocBuf_def allocPage_def flushFile_def
  disposePage_def evictFrame_def advanceClock_def BufMgr_init_def hash_insert_def hash_remove_def
  file_readPage_def file_writePage_def file_allocatePage_def file_deletePage_def Set_def Clear_def
  Let_def allocBuf_loop_numeral allocBuf_search_numeral allocBuf_loop.simps allocBuf_search.simps
  upt_rec ex_disk_def

section \<open>Pin counts\<close>

lemma numBufs_exec: "pool_inv s \<Longrightarrow> numBufs (exec x s) = numBufs s"
proof (cases x)
  case (ReadPage f p)
  assume inv: "pool_inv s"
  show ?thesis
  proof (cases "hashTable s (f, p)")
    case (Some i)
    then show ?thesis using ReadPage by (simp add: readPage_hit)
  next
    case None
    obtain ra s1 where ab: "allocBuf s = (ra, s1)" by (cases "allocBuf s")
    note res = allocBuf_result[OF inv ab]
    show ?thesis using ReadPage None ab res(2)
      by (auto simp: readPage_miss installed_simps split: sum.splits option.splits)
  qed
next
  case (UnPinPage f p dty)
  then show ?thesis by (auto simp: unPinPage_def Let_def split: option.splits)
next
  case (AllocPage f)
  assume inv: "pool_inv s"
  obtain new_pg st where al: "file_allocatePage f (backend s) = (new_pg, st)"
    by (cases "file_allocatePage f (backend s)")
  have inv0: "pool_inv (s\<lparr>backend := st\<rparr>)" using inv by (simp add: pool_inv_backend)
  obtain ra s1 where ab: "allocBuf (s\<lparr>backend := st\<rparr>) = (ra, s1)"
    by (cases "allocBuf (s\<lparr>backend := st\<rparr>)")
  note res = allocBuf_result[OF inv0 ab]
  show ?thesis using AllocPage al ab res(2)
    by (auto simp: allocPage_def hash_insert_def split: sum.splits option.splits)
next
  case (FlushFile f)
  assume inv: "pool_inv s"
  obtain r s' where fl: "flushFile f s = (r, s')" by (cases "flushFile f s")
  from pool_inv_flushFile_loop[OF inv _ fl[unfolded flushFile_def]] FlushFile fl
  show ?thesis by simp
next
  case (DisposePage f p)
  then show ?thesis by (auto simp: disposePage_def Let_def split: sum.splits option.splits)
qed

lemma numBufs_run: "pool_inv s \<Longrightarrow> numBufs (run ops s) = numBufs s"
  unfolding run_def
  by (induction ops arbitrary: s) (simp_all add: pool_inv_exec numBufs_exec)

text \<open>C3. Whatever sequence of operations a consumer runs on a fresh pool (fetches and
  releases, and the other three public operations as well), every frame's pin count is at
  least zero in the state it reaches; and in such a state, releasing a resident page whose
  pin count is zero raises \<^verbatim>\<open>PageNotPinnedException\<close> and leaves the whole state, hence
  the descriptor, as it was.\<close>

theorem pin_count_never_negative:
  assumes "0 < bufs" and "bufs < 2 ^ 32"
  shows "numBufs (run ops (BufMgr_init bufs st)) = bufs \<and>
    length (bufDescTable (run ops (BufMgr_init bufs st))) = bufs \<and>
    (\<forall>i < bufs. 0 \<le> pinCnt (bufDescTable (run ops (BufMgr_init bufs st)) ! i)) \<and>
    (\<forall>f p dty i. hashTable (run ops (BufMgr_init bufs st)) (f, p) = Some i \<and>
        pinCnt (bufDescTable (run ops (BufMgr_init bufs st)) ! i) = 0 \<longrightarrow>
        unPinPage f p dty (run ops (BufMgr_init bufs st)) =
          (Inl (PageNotPinnedException f p i), run ops (BufMgr_init bufs st)))"
proof -
  let ?s = "run ops (BufMgr_init bufs st)"
  have inv0: "pool_inv (BufMgr_init bufs st)" using assms by (rule pool_inv_init)
  have inv: "pool_inv ?s" using inv0 by (rule pool_inv_run)
  have n: "numBufs ?s = bufs" using numBufs_run[OF inv0] by (simp add: BufMgr_init_def)
  have len: "length (bufDescTable ?s) = bufs" using inv n by (simp add: pool_inv_def sizes_ok_def)
  have pins: "\<forall>i < bufs. 0 \<le> pinCnt (bufDescTable ?s ! i)"
    using inv n by (simp add: pool_inv_def pins_ok_def)
  have over: "\<forall>f p dty i. hashTable ?s (f, p) = Some i \<and> pinCnt (bufDescTable ?s ! i) = 0 \<longrightarrow>
        unPinPage f p dty ?s = (Inl (PageNotPinnedException f p i), ?s)"
    by (simp add: unPinPage_def Let_def)
  show ?thesis using n len pins over by blast
qed

theorem pin_count_never_negative_witness:
  "(0::nat) < 1 \<and> (1::nat) < 2 ^ 32 \<and>
   hashTable (run [ReadPage 1 1, UnPinPage 1 1 False] (BufMgr_init 1 ex_disk)) (1, 1) = Some 0 \<and>
   pinCnt (bufDescTable (run [ReadPage 1 1, UnPinPage 1 1 False] (BufMgr_init 1 ex_disk)) ! 0) = 0 \<and>
   0 \<le> pinCnt (bufDescTable (run [ReadPage 1 1, UnPinPage 1 1 False] (BufMgr_init 1 ex_disk)) ! 0) \<and>
   unPinPage 1 1 False (run [ReadPage 1 1, UnPinPage 1 1 False] (BufMgr_init 1 ex_disk)) =
     (Inl (PageNotPinnedException 1 1 0),
      run [ReadPage 1 1, UnPinPage 1 1 False] (BufMgr_init 1 ex_disk))"
proof -
  let ?s = "run [ReadPage 1 1, UnPinPage 1 1 False] (BufMgr_init 1 ex_disk)"
  have h1: "(0::nat) < 1" and h2: "(1::nat) < 2 ^ 32" by simp_all
  note t = pin_count_never_negative[OF h1 h2, of "[ReadPage 1 1, UnPinPage 1 1 False]" ex_disk]
  have a: "hashTable ?s (1, 1) = Some 0" by (simp add: op_defs)
  have b: "pinCnt (bufDescTable ?s ! 0) = 0" by (simp add: op_defs)
  from t have c: "0 \<le> pinCnt (bufDescTable ?s ! 0)" by simp
  from t a b have d: "unPinPage 1 1 False ?s = (Inl (PageNotPinnedException 1 1 0), ?s)" by blast
  show ?thesis using h1 h2 a b c d by (intro conjI)
qed

section \<open>Release\<close>

text \<open>C8. On a pool that satisfies the invariant, releasing a pair that is not in the
  index returns normally and leaves the whole state as it was; and whenever a release
  raises at all, the pair is in the index, its frame's pin count is zero, and the
  exception is \<^verbatim>\<open>PageNotPinnedException\<close> with the state untouched.\<close>

theorem unPinPage_absent_is_noop:
  assumes "pool_inv s"
  shows "(hashTable s (f, p) = None \<longrightarrow> unPinPage f p dty s = (Inr (), s)) \<and>
    (\<forall>e s'. unPinPage f p dty s = (Inl e, s') \<longrightarrow>
       (\<exists>i. hashTable s (f, p) = Some i \<and> pinCnt (bufDescTable s ! i) = 0 \<and>
            e = PageNotPinnedException f p i \<and> s' = s))"
proof (intro conjI allI impI)
  assume "hashTable s (f, p) = None"
  then show "unPinPage f p dty s = (Inr (), s)" by (simp add: unPinPage_def)
next
  fix e s' assume u: "unPinPage f p dty s = (Inl e, s')"
  then obtain i where i: "hashTable s (f, p) = Some i"
    by (cases "hashTable s (f, p)") (auto simp: unPinPage_def)
  from index_ok_entry[OF pool_invD(4)[OF assms] i] have "i < numBufs s" by simp
  with assms have ge: "0 \<le> pinCnt (bufDescTable s ! i)" by (simp add: pool_inv_def pins_ok_def)
  from u i have "pinCnt (bufDescTable s ! i) \<le> 0 \<and> e = PageNotPinnedException f p i \<and> s' = s"
    by (auto simp: unPinPage_def Let_def split: if_splits)
  with ge i show "\<exists>i. hashTable s (f, p) = Some i \<and> pinCnt (bufDescTable s ! i) = 0 \<and>
            e = PageNotPinnedException f p i \<and> s' = s"
    by auto
qed

theorem unPinPage_absent_is_noop_witness:
  "pool_inv (run [ReadPage 1 1] (BufMgr_init 1 ex_disk)) \<and>
   hashTable (run [ReadPage 1 1] (BufMgr_init 1 ex_disk)) (1, 2) = None \<and>
   unPinPage 1 2 True (run [ReadPage 1 1] (BufMgr_init 1 ex_disk)) =
     (Inr (), run [ReadPage 1 1] (BufMgr_init 1 ex_disk)) \<and>
   pool_inv (run [ReadPage 1 1, UnPinPage 1 1 False] (BufMgr_init 1 ex_disk)) \<and>
   unPinPage 1 1 False (run [ReadPage 1 1, UnPinPage 1 1 False] (BufMgr_init 1 ex_disk)) =
     (Inl (PageNotPinnedException 1 1 0),
      run [ReadPage 1 1, UnPinPage 1 1 False] (BufMgr_init 1 ex_disk)) \<and>
   (\<exists>i. hashTable (run [ReadPage 1 1, UnPinPage 1 1 False] (BufMgr_init 1 ex_disk)) (1, 1) = Some i \<and>
        pinCnt (bufDescTable (run [ReadPage 1 1, UnPinPage 1 1 False] (BufMgr_init 1 ex_disk)) ! i) = 0)"
proof -
  let ?s = "run [ReadPage 1 1] (BufMgr_init 1 ex_disk)"
  let ?t = "run [ReadPage 1 1, UnPinPage 1 1 False] (BufMgr_init 1 ex_disk)"
  have inv0: "pool_inv (BufMgr_init 1 ex_disk)" by (rule pool_inv_init) simp_all
  have invs: "pool_inv ?s" using inv0 by (rule pool_inv_run)
  have invt: "pool_inv ?t" using inv0 by (rule pool_inv_run)
  have a: "hashTable ?s (1, 2) = None" by (simp add: op_defs)
  from unPinPage_absent_is_noop[OF invs, of 1 2 True] a
  have b: "unPinPage 1 2 True ?s = (Inr (), ?s)" by blast
  have c: "unPinPage 1 1 False ?t = (Inl (PageNotPinnedException 1 1 0), ?t)" by (simp add: op_defs)
  from unPinPage_absent_is_noop[OF invt, of 1 1 False] c
  have d: "\<exists>i. hashTable ?t (1, 1) = Some i \<and> pinCnt (bufDescTable ?t ! i) = 0" by blast
  show ?thesis using invs a b invt c d by (intro conjI)
qed

section \<open>Victim selection\<close>

lemma all_pinned_search:
  "sizes_ok s \<Longrightarrow>
   \<forall>i < numBufs s. valid (bufDescTable s ! i) \<and> 0 < pinCnt (bufDescTable s ! i) \<Longrightarrow>
   fst (allocBuf_search m s) = 0"
proof (induction m arbitrary: s)
  case 0
  show ?case by simp
next
  case (Suc m)
  let ?d = "bufDescTable s ! clockHand s"
  have c: "clockHand s < numBufs s" and len: "length (bufDescTable s) = numBufs s"
    using Suc.prems(1) by (simp_all add: sizes_ok_def)
  from Suc.prems(2) c have v: "valid ?d" and pn: "0 < pinCnt ?d" by simp_all
  show ?case
  proof (cases "refbit ?d")
    case True
    have szc: "sizes_ok (advanceClock (clearRef s))"
      using Suc.prems(1) by (intro sizes_ok_advanceClock sizes_ok_clearRef)
    have "\<forall>i < numBufs (advanceClock (clearRef s)).
        valid (bufDescTable (advanceClock (clearRef s)) ! i) \<and>
        0 < pinCnt (bufDescTable (advanceClock (clearRef s)) ! i)"
      using Suc.prems(2) c len
      by (simp add: advanceClock_simps clearRef_def nth_list_update)
    from Suc.IH[OF szc this] v True show ?thesis by (simp add: allocBuf_search_Suc)
  next
    case False
    have "\<forall>i < numBufs (advanceClock s).
        valid (bufDescTable (advanceClock s) ! i) \<and> 0 < pinCnt (bufDescTable (advanceClock s) ! i)"
      using Suc.prems(2) by (simp add: advanceClock_simps)
    from Suc.IH[OF sizes_ok_advanceClock[OF Suc.prems(1)] this] v pn False
    show ?thesis by (simp add: allocBuf_search_Suc)
  qed
qed

text \<open>C2, as amended. If every frame is occupied and pinned, a fetch of a page that is
  not resident raises \<^verbatim>\<open>BufferExceededException\<close>; the index, the frame contents and the
  backend are as before, and every descriptor is as before except that its reference bit
  may have been cleared by the sweep.\<close>

theorem fetch_on_pinned_pool:
  assumes "pool_inv s"
    and "\<forall>i < numBufs s. valid (bufDescTable s ! i) \<and> 0 < pinCnt (bufDescTable s ! i)"
    and "hashTable s (f, p) = None"
  shows "\<exists>s'. readPage f p s = (Inl BufferExceededException, s') \<and>
     hashTable s' = hashTable s \<and> bufPool s' = bufPool s \<and> backend s' = backend s \<and>
     numBufs s' = numBufs s \<and>
     (\<forall>i < numBufs s. same_but_refbit (bufDescTable s ! i) (bufDescTable s' ! i))"
proof -
  let ?m = "(2 * numBufs s) mod 2 ^ 32"
  obtain mb t where st: "allocBuf_search ?m (advanceClock s) = (mb, t)"
    by (cases "allocBuf_search ?m (advanceClock s)")
  have sza: "sizes_ok (advanceClock s)" using assms(1) by (intro sizes_ok_advanceClock pool_invD)
  have "fst (allocBuf_search ?m (advanceClock s)) = 0"
    using assms(2) by (intro all_pinned_search[OF sza]) (simp add: advanceClock_simps)
  with st have mb: "mb = 0" by simp
  from allocBuf_eq[OF assms(1) st] mb have ab: "allocBuf s = (Inl BufferExceededException, t)" by simp
  note props = allocBuf_search_props[OF sza st, unfolded advanceClock_simps]
  have rp: "readPage f p s = (Inl BufferExceededException, t)"
    using assms(3) ab by (simp add: readPage_miss)
  from props have "hashTable t = hashTable s" "bufPool t = bufPool s" "backend t = backend s"
    "numBufs t = numBufs s" "\<forall>i. same_but_refbit (bufDescTable s ! i) (bufDescTable t ! i)"
    by blast+
  with rp show ?thesis by blast
qed

theorem fetch_on_pinned_pool_witness:
  "pool_inv (run [ReadPage 1 1] (BufMgr_init 1 ex_disk)) \<and>
   numBufs (run [ReadPage 1 1] (BufMgr_init 1 ex_disk)) = 1 \<and>
   valid (bufDescTable (run [ReadPage 1 1] (BufMgr_init 1 ex_disk)) ! 0) \<and>
   0 < pinCnt (bufDescTable (run [ReadPage 1 1] (BufMgr_init 1 ex_disk)) ! 0) \<and>
   hashTable (run [ReadPage 1 1] (BufMgr_init 1 ex_disk)) (1, 2) = None \<and>
   (\<exists>s'. readPage 1 2 (run [ReadPage 1 1] (BufMgr_init 1 ex_disk)) = (Inl BufferExceededException, s') \<and>
      hashTable s' = hashTable (run [ReadPage 1 1] (BufMgr_init 1 ex_disk)) \<and>
      same_but_refbit (bufDescTable (run [ReadPage 1 1] (BufMgr_init 1 ex_disk)) ! 0)
        (bufDescTable s' ! 0))"
proof -
  let ?s = "run [ReadPage 1 1] (BufMgr_init 1 ex_disk)"
  have inv0: "pool_inv (BufMgr_init 1 ex_disk)" by (rule pool_inv_init) simp_all
  have inv: "pool_inv ?s" using inv0 by (rule pool_inv_run)
  have n: "numBufs ?s = 1" by (simp add: op_defs)
  have a0: "valid (bufDescTable ?s ! 0)" and a1: "0 < pinCnt (bufDescTable ?s ! 0)"
    by (simp_all add: op_defs)
  have a: "\<forall>i < numBufs ?s. valid (bufDescTable ?s ! i) \<and> 0 < pinCnt (bufDescTable ?s ! i)"
    using a0 a1 unfolding n by simp
  have b: "hashTable ?s (1, 2) = None" by (simp add: op_defs)
  from fetch_on_pinned_pool[OF inv a b] n
  have c: "\<exists>s'. readPage 1 2 ?s = (Inl BufferExceededException, s') \<and>
      hashTable s' = hashTable ?s \<and> same_but_refbit (bufDescTable ?s ! 0) (bufDescTable s' ! 0)"
    by auto
  show ?thesis using inv n a0 a1 b c by (intro conjI)
qed

text \<open>C2 as stated fails: in a pool of one frame that holds a pinned page, the failed
  fetch of a second page clears the reference bit of the frame's descriptor.\<close>

theorem failed_fetch_mutates_descriptor:
  "valid (bufDescTable (run [ReadPage 1 1] (BufMgr_init 1 ex_disk)) ! 0) \<and>
   0 < pinCnt (bufDescTable (run [ReadPage 1 1] (BufMgr_init 1 ex_disk)) ! 0) \<and>
   numBufs (run [ReadPage 1 1] (BufMgr_init 1 ex_disk)) = 1 \<and>
   hashTable (run [ReadPage 1 1] (BufMgr_init 1 ex_disk)) (1, 2) = None \<and>
   fst (readPage 1 2 (run [ReadPage 1 1] (BufMgr_init 1 ex_disk))) = Inl BufferExceededException \<and>
   refbit (bufDescTable (run [ReadPage 1 1] (BufMgr_init 1 ex_disk)) ! 0) \<and>
   \<not> refbit (bufDescTable (snd (readPage 1 2 (run [ReadPage 1 1] (BufMgr_init 1 ex_disk)))) ! 0) \<and>
   bufDescTable (snd (readPage 1 2 (run [ReadPage 1 1] (BufMgr_init 1 ex_disk)))) \<noteq>
     bufDescTable (run [ReadPage 1 1] (BufMgr_init 1 ex_disk))"
  by (simp add: op_defs)

section \<open>The second chance\<close>

lemma dist_self: "dist n i i = 0"
  by (simp add: dist_def)

lemma dist_step:
  assumes "c < n" "i < n" "c \<noteq> i"
  shows "Suc (dist n (Suc c mod n) i) = dist n c i"
proof (cases "Suc c = n")
  case True
  then have "Suc c mod n = 0" by simp
  moreover from True assms have "i < c" by simp
  ultimately show ?thesis using True by (simp add: dist_def)
next
  case False
  with assms(1) have "Suc c < n" by simp
  then have "Suc c mod n = Suc c" by simp
  then show ?thesis using assms by (auto simp: dist_def)
qed

lemma dist_after_self:
  assumes "i < n"
  shows "Suc (dist n (Suc i mod n) i) = n"
proof (cases "Suc i = n")
  case True
  then have "Suc i mod n = 0" by simp
  then show ?thesis using True by (simp add: dist_def)
next
  case False
  with assms have "Suc i < n" by simp
  then have "Suc i mod n = Suc i" by simp
  then show ?thesis using assms by (simp add: dist_def)
qed

lemma allocBuf_search_stop:
  "\<not> valid (bufDescTable s ! clockHand s) \<or>
    (\<not> refbit (bufDescTable s ! clockHand s) \<and> \<not> 0 < pinCnt (bufDescTable s ! clockHand s)) \<Longrightarrow>
   allocBuf_search (Suc m) s = (Suc m, s)"
  by (auto simp: allocBuf_search_Suc Let_def)

lemma allocBuf_search_cases:
  obtains (stop) "allocBuf_search (Suc m) s = (Suc m, s)"
      "\<not> valid (bufDescTable s ! clockHand s) \<or>
        (\<not> refbit (bufDescTable s ! clockHand s) \<and> \<not> 0 < pinCnt (bufDescTable s ! clockHand s))"
    | (ref) "allocBuf_search (Suc m) s = allocBuf_search m (advanceClock (clearRef s))"
      "valid (bufDescTable s ! clockHand s)" "refbit (bufDescTable s ! clockHand s)"
    | (pin) "allocBuf_search (Suc m) s = allocBuf_search m (advanceClock s)"
      "valid (bufDescTable s ! clockHand s)" "\<not> refbit (bufDescTable s ! clockHand s)"
      "0 < pinCnt (bufDescTable s ! clockHand s)"
  by (cases "valid (bufDescTable s ! clockHand s)"; cases "refbit (bufDescTable s ! clockHand s)";
      cases "0 < pinCnt (bufDescTable s ! clockHand s)")
    (simp_all add: allocBuf_search_Suc)

lemma allocBuf_search_dist:
  "sizes_ok s \<Longrightarrow> allocBuf_search m s = (mb, t) \<Longrightarrow> clockHand t = i \<Longrightarrow>
   dist (numBufs s) (clockHand s) i + mb \<le> m"
proof (induction m arbitrary: s)
  case 0
  then show ?case by (auto simp: dist_self)
next
  case (Suc m)
  have c: "clockHand s < numBufs s" using Suc.prems(1) by (simp add: sizes_ok_def)
  have it: "i < numBufs s"
    using allocBuf_search_props[OF Suc.prems(1,2)] Suc.prems(3) by (auto simp: sizes_ok_def)
  have step: "dist (numBufs s) (clockHand s) i \<le> Suc (dist (numBufs s) (Suc (clockHand s) mod numBufs s) i)"
    using dist_step[OF c it] by (cases "clockHand s = i") (simp_all add: dist_self)
  show ?case
  proof (cases m s rule: allocBuf_search_cases)
    case stop
    with Suc.prems show ?thesis by (auto simp: dist_self)
  next
    case ref
    have sz1: "sizes_ok (advanceClock (clearRef s))"
      using Suc.prems(1) by (intro sizes_ok_advanceClock sizes_ok_clearRef)
    from Suc.IH[OF sz1 _ Suc.prems(3)] ref(1) Suc.prems(2)
    have "dist (numBufs s) (Suc (clockHand s) mod numBufs s) i + mb \<le> m"
      by (simp add: advanceClock_simps clearRef_simps
          clockHand_advanceClock[OF sizes_ok_clearRef[OF Suc.prems(1)]])
    with step show ?thesis by simp
  next
    case pin
    from Suc.IH[OF sizes_ok_advanceClock[OF Suc.prems(1)] _ Suc.prems(3)] pin(1) Suc.prems(2)
    have "dist (numBufs s) (Suc (clockHand s) mod numBufs s) i + mb \<le> m"
      by (simp add: advanceClock_simps clockHand_advanceClock[OF Suc.prems(1)])
    with step show ?thesis by simp
  qed
qed

lemma refbit_survives_search:
  "sizes_ok s \<Longrightarrow> allocBuf_search m s = (mb, t) \<Longrightarrow> 0 < mb \<Longrightarrow> clockHand t = i \<Longrightarrow>
   valid (bufDescTable s ! i) \<Longrightarrow> refbit (bufDescTable s ! i) \<Longrightarrow>
   numBufs s + mb \<le> m"
proof (induction m arbitrary: s)
  case 0
  then show ?case by simp
next
  case (Suc m)
  have c: "clockHand s < numBufs s" and len: "length (bufDescTable s) = numBufs s"
    using Suc.prems(1) by (simp_all add: sizes_ok_def)
  have it: "i < numBufs s"
    using allocBuf_search_props[OF Suc.prems(1,2)] Suc.prems(4) by (auto simp: sizes_ok_def)
  show ?case
  proof (cases m s rule: allocBuf_search_cases)
    case stop
    with Suc.prems(2) have "t = s" by simp
    with stop(2) Suc.prems(4,5,6) show ?thesis by auto
  next
    case ref
    have szc: "sizes_ok (clearRef s)" using Suc.prems(1) by (rule sizes_ok_clearRef)
    have sz1: "sizes_ok (advanceClock (clearRef s))" using szc by (rule sizes_ok_advanceClock)
    have eq: "allocBuf_search m (advanceClock (clearRef s)) = (mb, t)"
      using ref(1) Suc.prems(2) by simp
    show ?thesis
    proof (cases "clockHand s = i")
      case True
      from allocBuf_search_dist[OF sz1 eq Suc.prems(4)]
      have "dist (numBufs s) (Suc i mod numBufs s) i + mb \<le> m"
        using True by (simp add: advanceClock_simps clearRef_simps clockHand_advanceClock[OF szc])
      with dist_after_self[OF it] show ?thesis by simp
    next
      case False
      then have "bufDescTable (advanceClock (clearRef s)) ! i = bufDescTable s ! i"
        by (simp add: advanceClock_simps clearRef_def)
      with Suc.IH[OF sz1 eq Suc.prems(3,4)] Suc.prems(5,6) show ?thesis
        by (simp add: advanceClock_simps clearRef_simps)
    qed
  next
    case pin
    have eq: "allocBuf_search m (advanceClock s) = (mb, t)" using pin(1) Suc.prems(2) by simp
    from Suc.IH[OF sizes_ok_advanceClock[OF Suc.prems(1)] eq Suc.prems(3,4)] Suc.prems(5,6)
    show ?thesis by (simp add: advanceClock_simps)
  qed
qed

text \<open>C1. Let \<open>allocBuf\<close> return frame \<open>i\<close> on a pool that satisfies the invariant (as
  every pool reached from the constructor does, by \<open>pool_inv_init\<close> and \<open>pool_inv_run\<close>),
  and let frame \<open>i\<close> be occupied when the call starts, so that it is evicted. Then the state \<open>t\<close>
  in which the sweep stops advancing is the moment of selection: the hand is on \<open>i\<close>, the
  frame is still occupied, its pin count is zero and its reference bit is clear, and the
  result state is \<open>t\<close> with that frame evicted. If the frame's reference bit was set when
  the call started, the sweep has made at least \<open>numBufs\<close> steps before the selection:
  the first visit only cleared the bit, and the frame was chosen on a later visit.\<close>

theorem victim_unpinned_unreferenced:
  assumes "pool_inv s" and "allocBuf s = (Inr i, s')" and "valid (bufDescTable s ! i)"
  shows "\<exists>mb t. allocBuf_search ((2 * numBufs s) mod 2 ^ 32) (advanceClock s) = (mb, t) \<and>
     0 < mb \<and> clockHand t = i \<and> i < numBufs s \<and>
     valid (bufDescTable t ! i) \<and> pinCnt (bufDescTable t ! i) = 0 \<and> \<not> refbit (bufDescTable t ! i) \<and>
     evictFrame i t = (Inr (), s') \<and> pinCnt (bufDescTable s ! i) = 0 \<and>
     (refbit (bufDescTable s ! i) \<longrightarrow> numBufs s + mb \<le> (2 * numBufs s) mod 2 ^ 32)"
proof -
  let ?m = "(2 * numBufs s) mod 2 ^ 32"
  obtain mb t where st: "allocBuf_search ?m (advanceClock s) = (mb, t)"
    by (cases "allocBuf_search ?m (advanceClock s)")
  have inva: "pool_inv (advanceClock s)" using assms(1) by (rule pool_inv_advanceClock)
  have sza: "sizes_ok (advanceClock s)" using inva by (rule pool_invD)
  have invt: "pool_inv t" using pool_inv_allocBuf_search[OF inva st] .
  note props = allocBuf_search_props[OF sza st, unfolded advanceClock_simps]
  from props have nt: "numBufs t = numBufs s"
    and sb: "\<And>j. same_but_refbit (bufDescTable s ! j) (bufDescTable t ! j)"
    and stop: "0 < mb \<longrightarrow> \<not> valid (bufDescTable t ! clockHand t) \<or>
      (\<not> refbit (bufDescTable t ! clockHand t) \<and> \<not> 0 < pinCnt (bufDescTable t ! clockHand t))"
    by blast+
  note eq = allocBuf_eq[OF assms(1) st, unfolded assms(2)]
  have mb: "0 < mb" using eq by (cases "mb = 0") simp_all
  have hand: "clockHand t = i" using eq mb by (simp split: if_splits)
  have c: "i < numBufs s" using invt hand nt by (auto simp: pool_inv_def sizes_ok_def)
  have vt: "valid (bufDescTable t ! i)" using same_but_refbit_fields(1)[OF sb[of i]] assms(3) by simp
  have s': "s' = evicted i t" using eq mb hand vt by simp
  have ev: "evictFrame i t = (Inr (), s')"
    unfolding s' using invt c nt vt by (intro evictFrame_eq pool_invD) simp_all
  from stop mb hand vt have nr: "\<not> refbit (bufDescTable t ! i)"
    and np: "\<not> 0 < pinCnt (bufDescTable t ! i)" by simp_all
  have "0 \<le> pinCnt (bufDescTable t ! i)" using invt c nt by (simp add: pool_inv_def pins_ok_def)
  with np have p0: "pinCnt (bufDescTable t ! i) = 0" by simp
  have p0s: "pinCnt (bufDescTable s ! i) = 0" using same_but_refbit_fields(2)[OF sb[of i]] p0 by simp
  have late: "refbit (bufDescTable s ! i) \<longrightarrow> numBufs s + mb \<le> ?m"
  proof
    assume "refbit (bufDescTable s ! i)"
    with refbit_survives_search[OF sza st mb hand] assms(3)
    show "numBufs s + mb \<le> ?m" by (simp add: advanceClock_simps)
  qed
  show ?thesis using st mb hand c vt p0 nr ev p0s late by blast
qed

theorem victim_unpinned_unreferenced_witness:
  "pool_inv (run [ReadPage 1 1, UnPinPage 1 1 False] (BufMgr_init 1 ex_disk)) \<and>
   fst (allocBuf (run [ReadPage 1 1, UnPinPage 1 1 False] (BufMgr_init 1 ex_disk))) = Inr 0 \<and>
   valid (bufDescTable (run [ReadPage 1 1, UnPinPage 1 1 False] (BufMgr_init 1 ex_disk)) ! 0) \<and>
   refbit (bufDescTable (run [ReadPage 1 1, UnPinPage 1 1 False] (BufMgr_init 1 ex_disk)) ! 0) \<and>
   (\<exists>mb t. allocBuf_search 2
        (advanceClock (run [ReadPage 1 1, UnPinPage 1 1 False] (BufMgr_init 1 ex_disk))) = (mb, t) \<and>
      1 + mb \<le> 2 \<and> pinCnt (bufDescTable t ! 0) = 0 \<and> \<not> refbit (bufDescTable t ! 0))"
proof -
  let ?s = "run [ReadPage 1 1, UnPinPage 1 1 False] (BufMgr_init 1 ex_disk)"
  have inv0: "pool_inv (BufMgr_init 1 ex_disk)" by (rule pool_inv_init) simp_all
  have inv: "pool_inv ?s" using inv0 by (rule pool_inv_run)
  have n: "numBufs ?s = 1" by (simp add: op_defs)
  have m: "(2 * numBufs ?s) mod 2 ^ 32 = 2" unfolding n by simp
  have a: "fst (allocBuf ?s) = Inr 0" by (simp add: op_defs)
  then have a': "allocBuf ?s = (Inr 0, snd (allocBuf ?s))" by (metis prod.collapse)
  have v: "valid (bufDescTable ?s ! 0)" by (simp add: op_defs)
  have r: "refbit (bufDescTable ?s ! 0)" by (simp add: op_defs)
  from victim_unpinned_unreferenced[OF inv a' v] obtain mb t where
    t: "allocBuf_search ((2 * numBufs ?s) mod 2 ^ 32) (advanceClock ?s) = (mb, t)"
      "pinCnt (bufDescTable t ! 0) = 0" "\<not> refbit (bufDescTable t ! 0)"
      "refbit (bufDescTable ?s ! 0) \<longrightarrow> numBufs ?s + mb \<le> (2 * numBufs ?s) mod 2 ^ 32"
    by blast
  have t1: "allocBuf_search 2 (advanceClock ?s) = (mb, t)" using t(1) by (simp only: m)
  from t(4) r have "numBufs ?s + mb \<le> (2 * numBufs ?s) mod 2 ^ 32" by blast
  then have t4: "1 + mb \<le> 2" unfolding n by simp
  have e: "\<exists>mb t. allocBuf_search 2 (advanceClock ?s) = (mb, t) \<and>
      1 + mb \<le> 2 \<and> pinCnt (bufDescTable t ! 0) = 0 \<and> \<not> refbit (bufDescTable t ! 0)"
    using t1 t4 t(2,3) by (intro exI conjI)
  show ?thesis using inv a v r e by (intro conjI)
qed

section \<open>Flushing a file\<close>

lemma flushFile_loop_Cons:
  "flushFile_loop f (i # rest) s =
     (if corrupt (bufDescTable s ! i)
      then (Inl (BadBufferException i (dirty (bufDescTable s ! i)) False (refbit (bufDescTable s ! i))), s)
      else if \<not> belongs f (bufDescTable s ! i) then flushFile_loop f rest s
      else if pinCnt (bufDescTable s ! i) > 0
        then (Inl (PagePinnedException f (pageNo (bufDescTable s ! i)) i), s)
      else (case evictFrame i s of
              (Inl e, s') \<Rightarrow> (Inl e, s')
            | (Inr u, s') \<Rightarrow> flushFile_loop f rest s'))"
  by (simp add: Let_def corrupt_def belongs_def)

declare flushFile_loop.simps(2) [simp del]

lemma flushFile_loop_append:
  "flushFile_loop f (xs @ ys) s =
     (case flushFile_loop f xs s of
        (Inl e, t) \<Rightarrow> (Inl e, t)
      | (Inr u, t) \<Rightarrow> flushFile_loop f ys t)"
proof (induction xs arbitrary: s)
  case Nil
  show ?case by simp
next
  case (Cons x xs)
  show ?case by (simp add: flushFile_loop_Cons Cons.IH split: prod.splits sum.splits)
qed

lemma evictFrame_other:
  "evictFrame i s = (r, s') \<Longrightarrow> j \<noteq> i \<Longrightarrow> bufDescTable s' ! j = bufDescTable s ! j"
  by (auto simp: evictFrame_def Let_def split: option.splits sum.splits if_splits)

lemma flushFile_loop_other:
  "flushFile_loop f js s = (r, s') \<Longrightarrow> j \<notin> set js \<Longrightarrow> bufDescTable s' ! j = bufDescTable s ! j"
proof (induction js arbitrary: s)
  case Nil
  then show ?case by simp
next
  case (Cons i js)
  from Cons.prems(2) have ji: "j \<noteq> i" and jn: "j \<notin> set js" by simp_all
  obtain re se where ev: "evictFrame i s = (re, se)" by (cases "evictFrame i s")
  note o = evictFrame_other[OF ev ji]
  from Cons.prems(1) show ?case
    using Cons.IH[OF _ jn, of s] Cons.IH[OF _ jn, of se] ev o
    by (auto simp: flushFile_loop_Cons split: if_splits sum.splits)
qed

text \<open>C7. Let frame \<open>i\<close> be corrupt: not valid, but with a pin count, file, page number,
  dirty flag or reference bit that is not at its default. If the loop of \<open>flushFile\<close>
  gets through the frames before \<open>i\<close>, it visits frame \<open>i\<close> and \<open>flushFile\<close> raises
  \<^verbatim>\<open>BadBufferException\<close> for that frame; otherwise \<open>flushFile\<close> has already raised on an
  earlier frame. In no case does it return normally.\<close>

theorem flushFile_reports_corruption:
  assumes "i < numBufs s" and "corrupt (bufDescTable s ! i)"
  shows "(case flushFile_loop f [0..<i] s of
           (Inl e, t) \<Rightarrow> flushFile f s = (Inl e, t)
         | (Inr u, t) \<Rightarrow>
             flushFile f s =
               (Inl (BadBufferException i (dirty (bufDescTable s ! i)) False
                       (refbit (bufDescTable s ! i))), t)) \<and>
         fst (flushFile f s) \<noteq> Inr ()"
proof -
  have split: "[0..<numBufs s] = [0..<i] @ (i # [Suc i..<numBufs s])"
    using assms(1) by (metis less_imp_le_nat upt_add_eq_append upt_conv_Cons le_add_diff_inverse
        add_0 zero_le)
  obtain r t where l: "flushFile_loop f [0..<i] s = (r, t)" by (cases "flushFile_loop f [0..<i] s")
  have same: "bufDescTable t ! i = bufDescTable s ! i"
    using flushFile_loop_other[OF l] by simp
  show ?thesis
  proof (cases r)
    case (Inl e)
    with l show ?thesis by (simp add: flushFile_def split flushFile_loop_append)
  next
    case (Inr u)
    with l same assms(2) show ?thesis
      by (simp add: flushFile_def split flushFile_loop_append flushFile_loop_Cons)
  qed
qed

theorem flushFile_reports_corruption_witness:
  "(1::nat) < numBufs ex_corrupt \<and> corrupt (bufDescTable ex_corrupt ! 1) \<and>
   flushFile_loop 7 [0..<1] ex_corrupt = (Inr (), ex_corrupt) \<and>
   flushFile 7 ex_corrupt = (Inl (BadBufferException 1 True False False), ex_corrupt)"
proof -
  have a: "(1::nat) < numBufs ex_corrupt" by (simp add: ex_corrupt_def BufMgr_init_def)
  have b: "corrupt (bufDescTable ex_corrupt ! 1)"
    by (simp add: ex_corrupt_def BufMgr_init_def corrupt_def upt_rec)
  have c: "flushFile_loop 7 [0..<1] ex_corrupt = (Inr (), ex_corrupt)"
    by (simp add: ex_corrupt_def BufMgr_init_def flushFile_loop.simps upt_rec)
  have d: "dirty (bufDescTable ex_corrupt ! 1)" "\<not> refbit (bufDescTable ex_corrupt ! 1)"
    by (simp_all add: ex_corrupt_def BufMgr_init_def upt_rec)
  from flushFile_reports_corruption[OF a b, of 7] c d
  have e: "flushFile 7 ex_corrupt = (Inl (BadBufferException 1 True False False), ex_corrupt)"
    by simp
  show ?thesis using a b c e by (intro conjI)
qed

lemma evicted_writes:
  "writes (backend (evicted i s)) =
     writes (backend s) @
       (if dirty (bufDescTable s ! i) then [(the (file_ptr (bufDescTable s ! i)), bufPool s ! i)] else [])"
  by (simp add: evicted_def Let_def file_writePage_def)

lemma evicted_hashTable_other:
  "file_ptr (bufDescTable s ! i) = Some f \<Longrightarrow> g \<noteq> f \<Longrightarrow>
   hashTable (evicted i s) (g, p) = hashTable s (g, p)"
  by (simp add: evicted_def Let_def)

lemma flushFile_loop_ok:
  "pool_inv s \<Longrightarrow> distinct js \<Longrightarrow> \<forall>i \<in> set js. i < numBufs s \<Longrightarrow>
   \<forall>i \<in> set js. belongs f (bufDescTable s ! i) \<longrightarrow> \<not> 0 < pinCnt (bufDescTable s ! i) \<Longrightarrow>
   \<exists>s'. flushFile_loop f js s = (Inr (), s') \<and> pool_inv s' \<and> numBufs s' = numBufs s \<and>
     bufPool s' = bufPool s \<and>
     (\<forall>j < numBufs s. bufDescTable s' ! j =
        (if j \<in> set js \<and> belongs f (bufDescTable s ! j) then Clear (bufDescTable s ! j)
         else bufDescTable s ! j)) \<and>
     writes (backend s') = writes (backend s) @
        map (\<lambda>i. (f, bufPool s ! i))
          (filter (\<lambda>i. belongs f (bufDescTable s ! i) \<and> dirty (bufDescTable s ! i)) js) \<and>
     (\<forall>g p. g \<noteq> f \<longrightarrow> hashTable s' (g, p) = hashTable s (g, p))"
proof (induction js arbitrary: s)
  case Nil
  then show ?case by simp
next
  case (Cons i js)
  let ?d = "bufDescTable s ! i"
  have i: "i < numBufs s" and js: "\<forall>j \<in> set js. j < numBufs s"
    and inotin: "i \<notin> set js" and djs: "distinct js"
    using Cons.prems(2,3) by simp_all
  have len: "length (bufDescTable s) = numBufs s"
    using Cons.prems(1) by (simp add: pool_inv_def sizes_ok_def)
  have nc: "\<not> corrupt ?d" using Cons.prems(1) i by (simp add: pool_inv_def free_ok_def)
  show ?case
  proof (cases "belongs f ?d")
    case False
    have pj: "\<forall>j \<in> set js. belongs f (bufDescTable s ! j) \<longrightarrow> \<not> 0 < pinCnt (bufDescTable s ! j)"
      using Cons.prems(4) by simp
    from Cons.IH[OF Cons.prems(1) djs js pj] obtain s' where
      ih: "flushFile_loop f js s = (Inr (), s')" "pool_inv s'" "numBufs s' = numBufs s"
        "bufPool s' = bufPool s"
        "\<forall>j < numBufs s. bufDescTable s' ! j =
          (if j \<in> set js \<and> belongs f (bufDescTable s ! j) then Clear (bufDescTable s ! j)
           else bufDescTable s ! j)"
        "writes (backend s') = writes (backend s) @
          map (\<lambda>i. (f, bufPool s ! i))
            (filter (\<lambda>i. belongs f (bufDescTable s ! i) \<and> dirty (bufDescTable s ! i)) js)"
        "\<forall>g p. g \<noteq> f \<longrightarrow> hashTable s' (g, p) = hashTable s (g, p)"
      by blast
    have run: "flushFile_loop f (i # js) s = (Inr (), s')"
      using False nc ih(1) by (simp add: flushFile_loop_Cons)
    have descs: "\<forall>j < numBufs s. bufDescTable s' ! j =
          (if j \<in> set (i # js) \<and> belongs f (bufDescTable s ! j) then Clear (bufDescTable s ! j)
           else bufDescTable s ! j)"
      using ih(5) False by auto
    have wr: "writes (backend s') = writes (backend s) @
          map (\<lambda>i. (f, bufPool s ! i))
            (filter (\<lambda>i. belongs f (bufDescTable s ! i) \<and> dirty (bufDescTable s ! i)) (i # js))"
      using ih(6) False by simp
    show ?thesis using run ih(2,3,4,7) descs wr by blast
  next
    case True
    then have v: "valid ?d" and fp: "file_ptr ?d = Some f" by (simp_all add: belongs_def)
    have np: "\<not> 0 < pinCnt ?d" using Cons.prems(4) True by simp
    let ?s1 = "evicted i s"
    have ev: "evictFrame i s = (Inr (), ?s1)"
      using Cons.prems(1) i v by (intro evictFrame_eq pool_invD)
    have inv1: "pool_inv ?s1" using Cons.prems(1) i v by (rule pool_inv_evicted)
    have same: "\<And>j. j \<noteq> i \<Longrightarrow> bufDescTable ?s1 ! j = bufDescTable s ! j"
      by (simp add: evicted_simps)
    have js1: "\<forall>j \<in> set js. j < numBufs ?s1" using js by (simp add: evicted_simps)
    have pj: "\<forall>j \<in> set js. belongs f (bufDescTable ?s1 ! j) \<longrightarrow> \<not> 0 < pinCnt (bufDescTable ?s1 ! j)"
    proof
      fix j assume j: "j \<in> set js"
      with inotin have "j \<noteq> i" by auto
      with same Cons.prems(4) j
      show "belongs f (bufDescTable ?s1 ! j) \<longrightarrow> \<not> 0 < pinCnt (bufDescTable ?s1 ! j)" by simp
    qed
    from Cons.IH[OF inv1 djs js1 pj] obtain s' where
      ih: "flushFile_loop f js ?s1 = (Inr (), s')" "pool_inv s'" "numBufs s' = numBufs ?s1"
        "bufPool s' = bufPool ?s1"
        "\<forall>j < numBufs ?s1. bufDescTable s' ! j =
          (if j \<in> set js \<and> belongs f (bufDescTable ?s1 ! j) then Clear (bufDescTable ?s1 ! j)
           else bufDescTable ?s1 ! j)"
        "writes (backend s') = writes (backend ?s1) @
          map (\<lambda>i. (f, bufPool ?s1 ! i))
            (filter (\<lambda>i. belongs f (bufDescTable ?s1 ! i) \<and> dirty (bufDescTable ?s1 ! i)) js)"
        "\<forall>g p. g \<noteq> f \<longrightarrow> hashTable s' (g, p) = hashTable ?s1 (g, p)"
      by blast
    have run: "flushFile_loop f (i # js) s = (Inr (), s')"
      using True nc np ev ih(1) by (simp add: flushFile_loop_Cons)
    have descs: "\<forall>j < numBufs s. bufDescTable s' ! j =
          (if j \<in> set (i # js) \<and> belongs f (bufDescTable s ! j) then Clear (bufDescTable s ! j)
           else bufDescTable s ! j)"
    proof (intro allI impI)
      fix j assume j: "j < numBufs s"
      show "bufDescTable s' ! j =
          (if j \<in> set (i # js) \<and> belongs f (bufDescTable s ! j) then Clear (bufDescTable s ! j)
           else bufDescTable s ! j)"
      proof (cases "j = i")
        case True
        with ih(5) j inotin have "bufDescTable s' ! j = bufDescTable ?s1 ! i"
          by (simp add: evicted_simps(1))
        also have "\<dots> = Clear ?d" using i len by (simp add: evicted_simps)
        finally show ?thesis using True \<open>belongs f ?d\<close> by simp
      next
        case False
        with ih(5) j same[OF False] show ?thesis by (simp add: evicted_simps(1))
      qed
    qed
    have filt: "filter (\<lambda>i. belongs f (bufDescTable ?s1 ! i) \<and> dirty (bufDescTable ?s1 ! i)) js =
        filter (\<lambda>i. belongs f (bufDescTable s ! i) \<and> dirty (bufDescTable s ! i)) js"
    proof (rule filter_cong[OF refl])
      fix j assume "j \<in> set js"
      with inotin have "j \<noteq> i" by auto
      with same show "(belongs f (bufDescTable ?s1 ! j) \<and> dirty (bufDescTable ?s1 ! j)) =
        (belongs f (bufDescTable s ! j) \<and> dirty (bufDescTable s ! j))" by simp
    qed
    have wr: "writes (backend s') = writes (backend s) @
          map (\<lambda>i. (f, bufPool s ! i))
            (filter (\<lambda>i. belongs f (bufDescTable s ! i) \<and> dirty (bufDescTable s ! i)) (i # js))"
      using ih(6) True fp by (simp add: filt evicted_writes evicted_simps(2))
    have ho: "\<forall>g p. g \<noteq> f \<longrightarrow> hashTable s' (g, p) = hashTable s (g, p)"
      using ih(7) evicted_hashTable_other[OF fp] by simp
    have n: "numBufs s' = numBufs s" and bp: "bufPool s' = bufPool s"
      using ih(3,4) by (simp_all add: evicted_simps)
    show ?thesis using run ih(2) n bp descs wr ho by blast
  qed
qed

text \<open>C5. On a pool that satisfies the invariant (so no frame is corrupt), if no
  resident frame of file \<open>f\<close> is pinned, \<open>flushFile f\<close> returns normally, and afterwards:
  the backend has observed, after the writes it had seen before, exactly one write for
  each frame that belonged to \<open>f\<close> and was dirty, in frame order, with that frame's
  content; the index has no entry for any page of \<open>f\<close>; every frame that belonged to \<open>f\<close>
  is cleared; and the other frames, the frame contents and the index entries of other
  files are as before.\<close>

theorem flushFile_unpinned_file:
  assumes "pool_inv s"
    and "\<forall>i < numBufs s. belongs f (bufDescTable s ! i) \<longrightarrow> \<not> 0 < pinCnt (bufDescTable s ! i)"
  shows "\<exists>s'. flushFile f s = (Inr (), s') \<and>
     writes (backend s') = writes (backend s) @
        map (\<lambda>i. (f, bufPool s ! i))
          (filter (\<lambda>i. belongs f (bufDescTable s ! i) \<and> dirty (bufDescTable s ! i))
             [0..<numBufs s]) \<and>
     (\<forall>p. hashTable s' (f, p) = None) \<and>
     (\<forall>i < numBufs s. belongs f (bufDescTable s ! i) \<longrightarrow>
        bufDescTable s' ! i = Clear (bufDescTable s ! i)) \<and>
     (\<forall>i < numBufs s. \<not> belongs f (bufDescTable s ! i) \<longrightarrow>
        bufDescTable s' ! i = bufDescTable s ! i) \<and>
     bufPool s' = bufPool s \<and> numBufs s' = numBufs s \<and>
     (\<forall>g p. g \<noteq> f \<longrightarrow> hashTable s' (g, p) = hashTable s (g, p))"
proof -
  have pj: "\<forall>i \<in> set [0..<numBufs s].
      belongs f (bufDescTable s ! i) \<longrightarrow> \<not> 0 < pinCnt (bufDescTable s ! i)"
    using assms(2) by simp
  from flushFile_loop_ok[OF assms(1) _ _ pj] obtain s' where
    r: "flushFile_loop f [0..<numBufs s] s = (Inr (), s')" "pool_inv s'" "numBufs s' = numBufs s"
      "bufPool s' = bufPool s"
      "\<forall>j < numBufs s. bufDescTable s' ! j =
        (if j \<in> set [0..<numBufs s] \<and> belongs f (bufDescTable s ! j) then Clear (bufDescTable s ! j)
         else bufDescTable s ! j)"
      "writes (backend s') = writes (backend s) @
        map (\<lambda>i. (f, bufPool s ! i))
          (filter (\<lambda>i. belongs f (bufDescTable s ! i) \<and> dirty (bufDescTable s ! i))
             [0..<numBufs s])"
      "\<forall>g p. g \<noteq> f \<longrightarrow> hashTable s' (g, p) = hashTable s (g, p)"
    by auto
  have cl: "\<forall>i < numBufs s. belongs f (bufDescTable s ! i) \<longrightarrow>
        bufDescTable s' ! i = Clear (bufDescTable s ! i)"
    using r(5) by simp
  have ot: "\<forall>i < numBufs s. \<not> belongs f (bufDescTable s ! i) \<longrightarrow>
        bufDescTable s' ! i = bufDescTable s ! i"
    using r(5) by simp
  have noent: "\<forall>p. hashTable s' (f, p) = None"
  proof (rule allI, rule ccontr)
    fix p assume "hashTable s' (f, p) \<noteq> None"
    then obtain j where j: "hashTable s' (f, p) = Some j" by auto
    from index_ok_entry[OF pool_invD(4)[OF r(2)] j] r(3)
    have jn: "j < numBufs s" and v: "valid (bufDescTable s' ! j)"
      and fp: "file_ptr (bufDescTable s' ! j) = Some f" by simp_all
    show False
    proof (cases "belongs f (bufDescTable s ! j)")
      case True
      with cl jn have "bufDescTable s' ! j = Clear (bufDescTable s ! j)" by simp
      with v show False by (simp add: Clear_def)
    next
      case False
      with ot jn have "bufDescTable s' ! j = bufDescTable s ! j" by simp
      with v fp False show False by (simp add: belongs_def)
    qed
  qed
  show ?thesis using r(1,3,4,6,7) cl ot noent unfolding flushFile_def by blast
qed

lemma all_less_two: "P 0 \<Longrightarrow> P 1 \<Longrightarrow> \<forall>i < 2. P (i::nat)"
  using less_2_cases by auto

theorem flushFile_unpinned_file_witness:
  "pool_inv (run [ReadPage 1 1, ReadPage 1 2, UnPinPage 1 1 True, UnPinPage 1 2 False]
      (BufMgr_init 2 ex_disk)) \<and>
   numBufs (run [ReadPage 1 1, ReadPage 1 2, UnPinPage 1 1 True, UnPinPage 1 2 False]
      (BufMgr_init 2 ex_disk)) = 2 \<and>
   pinCnt (bufDescTable (run [ReadPage 1 1, ReadPage 1 2, UnPinPage 1 1 True, UnPinPage 1 2 False]
      (BufMgr_init 2 ex_disk)) ! 0) = 0 \<and>
   pinCnt (bufDescTable (run [ReadPage 1 1, ReadPage 1 2, UnPinPage 1 1 True, UnPinPage 1 2 False]
      (BufMgr_init 2 ex_disk)) ! 1) = 0 \<and>
   belongs 1 (bufDescTable (run [ReadPage 1 1, ReadPage 1 2, UnPinPage 1 1 True, UnPinPage 1 2 False]
      (BufMgr_init 2 ex_disk)) ! 0) \<and>
   (\<exists>s'. flushFile 1 (run [ReadPage 1 1, ReadPage 1 2, UnPinPage 1 1 True, UnPinPage 1 2 False]
             (BufMgr_init 2 ex_disk)) = (Inr (), s') \<and>
      writes (backend s') = [(1, \<lparr>page_number = 1, content = ''a''\<rparr>)] \<and>
      hashTable s' (1, 1) = None \<and> \<not> valid (bufDescTable s' ! 0))"
proof -
  let ?s = "run [ReadPage 1 1, ReadPage 1 2, UnPinPage 1 1 True, UnPinPage 1 2 False]
      (BufMgr_init 2 ex_disk)"
  have inv0: "pool_inv (BufMgr_init 2 ex_disk)" by (rule pool_inv_init) simp_all
  have inv: "pool_inv ?s" using inv0 by (rule pool_inv_run)
  have n: "numBufs ?s = 2" by (simp add: op_defs)
  have p0: "pinCnt (bufDescTable ?s ! 0) = 0" by (simp add: op_defs)
  have p1: "pinCnt (bufDescTable ?s ! 1) = 0" by (simp add: op_defs)
  have b0: "belongs 1 (bufDescTable ?s ! 0)" by (simp add: op_defs belongs_def)
  have a: "\<forall>i < numBufs ?s. belongs 1 (bufDescTable ?s ! i) \<longrightarrow> \<not> 0 < pinCnt (bufDescTable ?s ! i)"
    unfolding n by (rule all_less_two) (simp_all only: p0 p1, simp_all)
  have w: "writes (backend ?s) @
        map (\<lambda>i. (1, bufPool ?s ! i))
          (filter (\<lambda>i. belongs 1 (bufDescTable ?s ! i) \<and> dirty (bufDescTable ?s ! i))
             [0..<numBufs ?s]) = [(1, \<lparr>page_number = 1, content = ''a''\<rparr>)]"
    by (simp add: op_defs belongs_def)
  from flushFile_unpinned_file[OF inv a] obtain s' where
    r: "flushFile 1 ?s = (Inr (), s')"
      "writes (backend s') = writes (backend ?s) @
        map (\<lambda>i. (1, bufPool ?s ! i))
          (filter (\<lambda>i. belongs 1 (bufDescTable ?s ! i) \<and> dirty (bufDescTable ?s ! i))
             [0..<numBufs ?s])"
      "\<forall>p. hashTable s' (1, p) = None"
      "\<forall>i < numBufs ?s. belongs 1 (bufDescTable ?s ! i) \<longrightarrow>
        bufDescTable s' ! i = Clear (bufDescTable ?s ! i)"
    by blast
  have r2: "writes (backend s') = [(1, \<lparr>page_number = 1, content = ''a''\<rparr>)]"
    using r(2) by (simp only: w)
  have r3: "hashTable s' (1, 1) = None" using r(3) by blast
  have "0 < numBufs ?s" unfolding n by simp
  with r(4) b0 have "bufDescTable s' ! 0 = Clear (bufDescTable ?s ! 0)" by blast
  then have r4: "\<not> valid (bufDescTable s' ! 0)" by (simp add: Clear_def)
  have e: "\<exists>s'. flushFile 1 ?s = (Inr (), s') \<and>
      writes (backend s') = [(1, \<lparr>page_number = 1, content = ''a''\<rparr>)] \<and>
      hashTable s' (1, 1) = None \<and> \<not> valid (bufDescTable s' ! 0)"
    using r(1) r2 r3 r4 by (intro exI conjI)
  show ?thesis using inv n p0 p1 b0 e by (intro conjI)
qed

section \<open>Allocating a page\<close>

lemma max_page_ge: "(p, c) \<in> set ps \<Longrightarrow> p \<le> max_page ps"
  by (induction ps) auto

lemma max_page_fresh: "map_of ps (Suc (max_page ps)) = None"
proof -
  have "Suc (max_page ps) \<notin> fst ` set ps"
  proof
    assume "Suc (max_page ps) \<in> fst ` set ps"
    then obtain c where "(Suc (max_page ps), c) \<in> set ps" by auto
    from max_page_ge[OF this] show False by simp
  qed
  then show ?thesis by (simp add: map_of_eq_None_iff)
qed

text \<open>C10. \<open>allocPage\<close> asks the backend for the new page first and for a frame second.
  If \<open>allocBuf\<close> then raises \<^verbatim>\<open>BufferExceededException\<close>, \<open>allocPage\<close> raises it too; the
  page, which did not exist before, now exists in the file, while the index is exactly
  what it was, the descriptors are what they were up to cleared reference bits, and so
  (the new number not having been in the index) the new page is in no index entry and in
  no frame descriptor.\<close>

theorem allocPage_not_atomic:
  assumes "pool_inv s"
    and "allocBuf (s\<lparr>backend := snd (file_allocatePage f (backend s))\<rparr>) =
           (Inl BufferExceededException, s1)"
    and "hashTable s (f, Suc (max_page (files (backend s) f))) = None"
  shows "allocPage f s = (Inl BufferExceededException, s1) \<and>
     page_number (fst (file_allocatePage f (backend s))) = Suc (max_page (files (backend s) f)) \<and>
     map_of (files (backend s) f) (Suc (max_page (files (backend s) f))) = None \<and>
     map_of (files (backend s1) f) (Suc (max_page (files (backend s) f))) = Some [] \<and>
     hashTable s1 = hashTable s \<and>
     hashTable s1 (f, Suc (max_page (files (backend s) f))) = None \<and>
     (\<forall>i < numBufs s. same_but_refbit (bufDescTable s ! i) (bufDescTable s1 ! i)) \<and>
     (\<forall>i < numBufs s. belongs f (bufDescTable s1 ! i) \<longrightarrow>
        pageNo (bufDescTable s1 ! i) \<noteq> Suc (max_page (files (backend s) f)))"
proof -
  let ?pn = "Suc (max_page (files (backend s) f))"
  let ?st = "snd (file_allocatePage f (backend s))"
  let ?sa = "s\<lparr>backend := ?st\<rparr>"
  let ?m = "(2 * numBufs ?sa) mod 2 ^ 32"
  have inv0: "pool_inv ?sa" using assms(1) by (simp add: pool_inv_backend)
  obtain mb t where st: "allocBuf_search ?m (advanceClock ?sa) = (mb, t)"
    by (cases "allocBuf_search ?m (advanceClock ?sa)")
  note eq = allocBuf_eq[OF inv0 st, unfolded assms(2)]
  have t: "s1 = t" using eq by (simp split: if_splits)
  have sza: "sizes_ok (advanceClock ?sa)" using inv0 by (intro sizes_ok_advanceClock pool_invD)
  note props = allocBuf_search_props[OF sza st, unfolded advanceClock_simps]
  from props t have h: "hashTable s1 = hashTable s" and b: "backend s1 = ?st"
    and n: "numBufs s1 = numBufs s"
    and sb: "\<forall>i. same_but_refbit (bufDescTable s ! i) (bufDescTable s1 ! i)"
    by simp_all
  have inv1: "pool_inv s1" using allocBuf_result(1)[OF inv0 assms(2)] .
  have ap: "allocPage f s = (Inl BufferExceededException, s1)"
    using assms(2) by (simp add: allocPage_def Let_def split_beta)
  have pn: "page_number (fst (file_allocatePage f (backend s))) = ?pn"
    by (simp add: file_allocatePage_def Let_def)
  have before: "map_of (files (backend s) f) ?pn = None" by (rule max_page_fresh)
  have after: "map_of (files (backend s1) f) ?pn = Some []"
    by (simp add: b file_allocatePage_def Let_def update_conv')
  have noent: "hashTable s1 (f, ?pn) = None" using h assms(3) by simp
  have nodesc: "\<forall>i < numBufs s. belongs f (bufDescTable s1 ! i) \<longrightarrow> pageNo (bufDescTable s1 ! i) \<noteq> ?pn"
  proof (intro allI impI notI)
    fix i assume i: "i < numBufs s" and bl: "belongs f (bufDescTable s1 ! i)"
      and p: "pageNo (bufDescTable s1 ! i) = ?pn"
    from bl have v: "valid (bufDescTable s1 ! i)" and fp: "file_ptr (bufDescTable s1 ! i) = Some f"
      by (simp_all add: belongs_def)
    from index_ok_frame[OF pool_invD(4)[OF inv1] _ v] i n fp p
    have "hashTable s1 (f, ?pn) = Some i" by auto
    with noent show False by simp
  qed
  show ?thesis using ap pn before after h noent sb nodesc by blast
qed

theorem allocPage_not_atomic_witness:
  "pool_inv (run [ReadPage 1 1] (BufMgr_init 1 ex_disk)) \<and>
   fst (allocBuf ((run [ReadPage 1 1] (BufMgr_init 1 ex_disk))
      \<lparr>backend := snd (file_allocatePage 1 (backend (run [ReadPage 1 1] (BufMgr_init 1 ex_disk))))\<rparr>))
     = Inl BufferExceededException \<and>
   Suc (max_page (files (backend (run [ReadPage 1 1] (BufMgr_init 1 ex_disk))) 1)) = 4 \<and>
   hashTable (run [ReadPage 1 1] (BufMgr_init 1 ex_disk)) (1, 4) = None \<and>
   fst (allocPage 1 (run [ReadPage 1 1] (BufMgr_init 1 ex_disk))) = Inl BufferExceededException \<and>
   map_of (files (backend (run [ReadPage 1 1] (BufMgr_init 1 ex_disk))) 1) 4 = None \<and>
   map_of (files (backend (snd (allocPage 1 (run [ReadPage 1 1] (BufMgr_init 1 ex_disk))))) 1) 4 = Some [] \<and>
   hashTable (snd (allocPage 1 (run [ReadPage 1 1] (BufMgr_init 1 ex_disk)))) (1, 4) = None"
proof -
  let ?s = "run [ReadPage 1 1] (BufMgr_init 1 ex_disk)"
  let ?sa = "?s\<lparr>backend := snd (file_allocatePage 1 (backend ?s))\<rparr>"
  have inv0: "pool_inv (BufMgr_init 1 ex_disk)" by (rule pool_inv_init) simp_all
  have inv: "pool_inv ?s" using inv0 by (rule pool_inv_run)
  have a: "fst (allocBuf ?sa) = Inl BufferExceededException" by (simp add: op_defs)
  then have a': "allocBuf ?sa = (Inl BufferExceededException, snd (allocBuf ?sa))"
    by (metis prod.collapse)
  have pn: "Suc (max_page (files (backend ?s) 1)) = 4" by (simp add: op_defs INVALID_NUMBER_def)
  have h: "hashTable ?s (1, 4) = None" by (simp add: op_defs)
  have h': "hashTable ?s (1, Suc (max_page (files (backend ?s) 1))) = None"
    using h by (simp only: pn)
  note t = allocPage_not_atomic[OF inv a' h', unfolded pn]
  from t have t1: "allocPage 1 ?s = (Inl BufferExceededException, snd (allocBuf ?sa))" by blast
  then have c1: "fst (allocPage 1 ?s) = Inl BufferExceededException"
    and sn: "snd (allocPage 1 ?s) = snd (allocBuf ?sa)" by simp_all
  from t have c2: "map_of (files (backend ?s) 1) 4 = None" by blast
  from t have c3: "map_of (files (backend (snd (allocPage 1 ?s))) 1) 4 = Some []"
    unfolding sn by blast
  from t have c4: "hashTable (snd (allocPage 1 ?s)) (1, 4) = None" unfolding sn by blast
  show ?thesis using inv a pn h c1 c2 c3 c4 by (intro conjI)
qed

section \<open>Write-back on eviction\<close>

lemma dist_less: "c < n \<Longrightarrow> i < n \<Longrightarrow> dist n c i < n"
  by (auto simp: dist_def)

lemma free_frame_found:
  "sizes_ok s \<Longrightarrow> j < numBufs s \<Longrightarrow> \<not> valid (bufDescTable s ! j) \<Longrightarrow>
   dist (numBufs s) (clockHand s) j < m \<Longrightarrow> 0 < fst (allocBuf_search m s)"
proof (induction m arbitrary: s)
  case 0
  then show ?case by simp
next
  case (Suc m)
  have c: "clockHand s < numBufs s" using Suc.prems(1) by (simp add: sizes_ok_def)
  show ?case
  proof (cases m s rule: allocBuf_search_cases)
    case stop
    then show ?thesis by simp
  next
    case ref
    from ref(2) Suc.prems(3) have ne: "clockHand s \<noteq> j" by auto
    have szc: "sizes_ok (clearRef s)" using Suc.prems(1) by (rule sizes_ok_clearRef)
    have sz1: "sizes_ok (advanceClock (clearRef s))" using szc by (rule sizes_ok_advanceClock)
    have fr: "\<not> valid (bufDescTable (advanceClock (clearRef s)) ! j)"
      using ne Suc.prems(3) by (simp add: advanceClock_simps clearRef_def)
    have d: "dist (numBufs (advanceClock (clearRef s))) (clockHand (advanceClock (clearRef s))) j < m"
      using dist_step[OF c Suc.prems(2) ne] Suc.prems(4)
      by (simp add: advanceClock_simps clearRef_simps clockHand_advanceClock[OF szc])
    from Suc.IH[OF sz1 _ fr d] Suc.prems(2) ref(1) show ?thesis
      by (simp add: advanceClock_simps clearRef_simps)
  next
    case pin
    from pin(2) Suc.prems(3) have ne: "clockHand s \<noteq> j" by auto
    have sz1: "sizes_ok (advanceClock s)" using Suc.prems(1) by (rule sizes_ok_advanceClock)
    have fr: "\<not> valid (bufDescTable (advanceClock s) ! j)"
      using Suc.prems(3) by (simp add: advanceClock_simps)
    have d: "dist (numBufs (advanceClock s)) (clockHand (advanceClock s)) j < m"
      using dist_step[OF c Suc.prems(2) ne] Suc.prems(4)
      by (simp add: advanceClock_simps clockHand_advanceClock[OF Suc.prems(1)])
    from Suc.IH[OF sz1 _ fr d] Suc.prems(2) pin(1) show ?thesis
      by (simp add: advanceClock_simps)
  qed
qed

lemma allocBuf_finds_free_frame:
  assumes "pool_inv s" "2 * numBufs s < 2 ^ 32" "j < numBufs s" "\<not> valid (bufDescTable s ! j)"
  shows "\<exists>k s'. allocBuf s = (Inr k, s')"
proof -
  let ?m = "(2 * numBufs s) mod 2 ^ 32"
  obtain mb t where st: "allocBuf_search ?m (advanceClock s) = (mb, t)"
    by (cases "allocBuf_search ?m (advanceClock s)")
  have sza: "sizes_ok (advanceClock s)" using assms(1) by (intro sizes_ok_advanceClock pool_invD)
  have m: "?m = 2 * numBufs s" using assms(2) by simp
  have "clockHand (advanceClock s) < numBufs s" using sza by (simp add: sizes_ok_def advanceClock_simps)
  from dist_less[OF this assms(3)] assms(3)
  have d: "dist (numBufs (advanceClock s)) (clockHand (advanceClock s)) j < ?m"
    unfolding m by (simp add: advanceClock_simps)
  from free_frame_found[OF sza _ _ d] assms(3,4) st have "0 < mb"
    by (simp add: advanceClock_simps)
  with allocBuf_eq[OF assms(1) st] show ?thesis by auto
qed

lemma evicted_keeps_page:
  assumes "index_ok t" "j < numBufs t" "valid (bufDescTable t ! j)" "hashTable t (f, p) = None"
  shows "map_of (files (backend (evicted j t)) f) p = map_of (files (backend t) f) p"
proof -
  from index_ok_frame[OF assms(1,2,3)] obtain g where
    g: "file_ptr (bufDescTable t ! j) = Some g"
      "hashTable t (g, pageNo (bufDescTable t ! j)) = Some j"
      "page_number (bufPool t ! j) = pageNo (bufDescTable t ! j)"
    by blast
  from g(2) assms(4) have "g \<noteq> f \<or> pageNo (bufDescTable t ! j) \<noteq> p" by auto
  with g show ?thesis
    by (auto simp: evicted_def Let_def file_writePage_def update_conv')
qed

lemma allocBuf_keeps_page:
  assumes "pool_inv s" "allocBuf s = (r, s')" "hashTable s (f, p) = None"
  shows "map_of (files (backend s') f) p = map_of (files (backend s) f) p"
proof -
  let ?m = "(2 * numBufs s) mod 2 ^ 32"
  obtain mb t where st: "allocBuf_search ?m (advanceClock s) = (mb, t)"
    by (cases "allocBuf_search ?m (advanceClock s)")
  have inva: "pool_inv (advanceClock s)" using assms(1) by (rule pool_inv_advanceClock)
  have invt: "pool_inv t" using pool_inv_allocBuf_search[OF inva st] .
  have c: "clockHand t < numBufs t" using invt by (simp add: pool_inv_def sizes_ok_def)
  note props = allocBuf_search_props[OF pool_invD(1)[OF inva] st, unfolded advanceClock_simps]
  from props have bt: "backend t = backend s" and ht: "hashTable t = hashTable s" by blast+
  note eq = allocBuf_eq[OF assms(1) st, unfolded assms(2)]
  show ?thesis
  proof (cases "mb = 0 \<or> \<not> valid (bufDescTable t ! clockHand t)")
    case True
    with eq have "s' = t" by (auto split: if_splits)
    with bt show ?thesis by simp
  next
    case False
    with eq have s': "s' = evicted (clockHand t) t" by (auto split: if_splits)
    from False have v: "valid (bufDescTable t ! clockHand t)" by simp
    from evicted_keeps_page[OF pool_invD(4)[OF invt] c v] assms(3) ht bt s'
    show ?thesis by simp
  qed
qed

text \<open>C4. A successful release of a resident page with the modified flag set leaves its
  frame dirty, with the page still resident and the frame contents untouched. Let then
  page \<open>(f, p)\<close> be resident in frame \<open>i\<close> with its dirty flag set, in any later state of
  the pool, and let \<open>allocBuf\<close> choose frame \<open>i\<close>. Then the backend observes one more
  \<^verbatim>\<open>writePage\<close>, of the frame's content, and holds that content for the page; in the
  result state the frame is cleared and the page is out of the index. A fetch of the page
  in that state succeeds and the frame it returns holds the content that was written.\<close>

theorem dirty_page_round_trip:
  assumes "pool_inv s" and "2 * numBufs s < 2 ^ 32"
    and "hashTable s (f, p) = Some i" and "dirty (bufDescTable s ! i)"
    and "allocBuf s = (Inr i, s1)"
  shows "writes (backend s1) = writes (backend s) @ [(f, bufPool s ! i)] \<and>
     map_of (files (backend s1) f) p = Some (content (bufPool s ! i)) \<and>
     \<not> valid (bufDescTable s1 ! i) \<and> hashTable s1 (f, p) = None \<and>
     (\<exists>j s2. readPage f p s1 = (Inr j, s2) \<and> bufPool s2 ! j = bufPool s ! i) \<and>
     (\<forall>t t'. pool_inv t \<and> hashTable t (f, p) = Some i \<and> unPinPage f p True t = (Inr (), t') \<longrightarrow>
        dirty (bufDescTable t' ! i) \<and> hashTable t' (f, p) = Some i \<and> bufPool t' = bufPool t)"
proof -
  let ?m = "(2 * numBufs s) mod 2 ^ 32"
  let ?d = "bufDescTable s ! i"
  have rel: "\<forall>t t'. pool_inv t \<and> hashTable t (f, p) = Some i \<and> unPinPage f p True t = (Inr (), t') \<longrightarrow>
        dirty (bufDescTable t' ! i) \<and> hashTable t' (f, p) = Some i \<and> bufPool t' = bufPool t"
  proof (intro allI impI, elim conjE)
    fix t t' assume invt: "pool_inv t" and ht: "hashTable t (f, p) = Some i"
      and up: "unPinPage f p True t = (Inr (), t')"
    from index_ok_entry[OF pool_invD(4)[OF invt] ht] have "i < numBufs t" by simp
    then have "i < length (bufDescTable t)" using invt by (simp add: pool_inv_def sizes_ok_def)
    with ht up show "dirty (bufDescTable t' ! i) \<and> hashTable t' (f, p) = Some i \<and> bufPool t' = bufPool t"
      by (auto simp: unPinPage_def Let_def split: if_splits)
  qed
  from index_ok_entry[OF pool_invD(4)[OF assms(1)] assms(3)]
  have i: "i < numBufs s" and v: "valid ?d" and fp: "file_ptr ?d = Some f" and pn: "pageNo ?d = p"
    by simp_all
  from index_ok_frame[OF pool_invD(4)[OF assms(1)] i v] pn
  have pg: "page_number (bufPool s ! i) = p" by auto
  obtain mb t where st: "allocBuf_search ?m (advanceClock s) = (mb, t)"
    by (cases "allocBuf_search ?m (advanceClock s)")
  have inva: "pool_inv (advanceClock s)" using assms(1) by (rule pool_inv_advanceClock)
  have invt: "pool_inv t" using pool_inv_allocBuf_search[OF inva st] .
  note props = allocBuf_search_props[OF pool_invD(1)[OF inva] st, unfolded advanceClock_simps]
  from props have nt: "numBufs t = numBufs s" and bt: "backend t = backend s"
    and ht: "hashTable t = hashTable s" and pt: "bufPool t = bufPool s"
    and sb: "\<And>j. same_but_refbit (bufDescTable s ! j) (bufDescTable t ! j)"
    by blast+
  note fld = same_but_refbit_fields[OF sb[of i]]
  note eq = allocBuf_eq[OF assms(1) st, unfolded assms(5)]
  have mb: "mb \<noteq> 0" using eq by (cases "mb = 0") simp_all
  have hand: "clockHand t = i" using eq mb by (simp split: if_splits)
  have vt: "valid (bufDescTable t ! i)" using fld(1) v by simp
  have s1: "s1 = evicted i t" using eq mb hand vt by simp
  have len: "length (bufDescTable t) = numBufs s" "length (bufPool s) = numBufs s"
    using invt nt assms(1) by (simp_all add: pool_inv_def sizes_ok_def)
  have w: "writes (backend s1) = writes (backend s) @ [(f, bufPool s ! i)]"
    using fld(3,5) fp assms(4) by (simp add: s1 evicted_writes bt pt)
  have disk: "map_of (files (backend s1) f) p = Some (content (bufPool s ! i))"
    using fld(3,5) fp assms(4) pg
    by (simp add: s1 evicted_def Let_def bt pt file_writePage_def update_conv')
  have nv: "\<not> valid (bufDescTable s1 ! i)"
    using i len by (simp add: s1 evicted_simps Clear_def)
  have nh: "hashTable s1 (f, p) = None"
    using fld(3,4) fp pn by (simp add: s1 evicted_def Let_def)
  have inv1: "pool_inv s1" and n1: "numBufs s1 = numBufs s"
    using allocBuf_result(1,2)[OF assms(1,5)] by simp_all
  from allocBuf_finds_free_frame[OF inv1 _ _ nv] assms(2) i n1
  obtain j s2 where ab: "allocBuf s1 = (Inr j, s2)" by auto
  note res = allocBuf_result[OF inv1 ab]
  have j: "j = clockHand s2" using res(3) by simp
  have jn: "j < numBufs s2" using res(1) j by (simp add: pool_inv_def sizes_ok_def)
  have lp: "length (bufPool s2) = numBufs s2" using res(1) by (simp add: pool_inv_def sizes_ok_def)
  have h2: "hashTable s2 (f, p) = None" using res(4)[of "(f, p)"] nh by auto
  have "map_of (files (backend s2) f) p = Some (content (bufPool s ! i))"
    using allocBuf_keeps_page[OF inv1 ab nh] disk by simp
  then have rd: "file_readPage f p (backend s2) = Inr \<lparr>page_number = p, content = content (bufPool s ! i)\<rparr>"
    by (simp add: file_readPage_def)
  have same: "\<lparr>page_number = p, content = content (bufPool s ! i)\<rparr> = bufPool s ! i"
    using pg by (cases "bufPool s ! i") simp
  have rp: "readPage f p s1 = (Inr j, installed j f p (bufPool s ! i) s2)"
    using nh ab rd h2 same by (simp add: readPage_miss)
  have "bufPool (installed j f p (bufPool s ! i) s2) ! j = bufPool s ! i"
    using jn lp by (simp add: installed_simps)
  with rp have "\<exists>j s2. readPage f p s1 = (Inr j, s2) \<and> bufPool s2 ! j = bufPool s ! i" by blast
  with w disk nv nh rel show ?thesis by blast
qed

lemma pool_inv_modifyPage: "pool_inv s \<Longrightarrow> pool_inv (modifyPage i c s)"
proof -
  assume inv: "pool_inv s"
  have pn: "\<And>j. page_number (bufPool (modifyPage i c s) ! j) = page_number (bufPool s ! j)"
    by (cases "i < length (bufPool s)") (auto simp: modifyPage_def nth_list_update list_update_beyond)
  have 4: "index_ok (modifyPage i c s)"
    using pool_invD(4)[OF inv] unfolding index_ok_def pn by (simp add: modifyPage_def)
  show ?thesis using inv 4
    by (simp add: pool_inv_def sizes_ok_def pins_ok_def free_ok_def modifyPage_def)
qed

theorem dirty_page_round_trip_witness:
  "pool_inv (snd (unPinPage 1 1 True (modifyPage 0 ''a2'' (run [ReadPage 1 1] (BufMgr_init 1 ex_disk))))) \<and>
   hashTable (snd (unPinPage 1 1 True (modifyPage 0 ''a2'' (run [ReadPage 1 1] (BufMgr_init 1 ex_disk)))))
     (1, 1) = Some 0 \<and>
   dirty (bufDescTable (snd (unPinPage 1 1 True
     (modifyPage 0 ''a2'' (run [ReadPage 1 1] (BufMgr_init 1 ex_disk))))) ! 0) \<and>
   bufPool (snd (unPinPage 1 1 True (modifyPage 0 ''a2'' (run [ReadPage 1 1] (BufMgr_init 1 ex_disk))))) ! 0
     = \<lparr>page_number = 1, content = ''a2''\<rparr> \<and>
   fst (allocBuf (snd (unPinPage 1 1 True
     (modifyPage 0 ''a2'' (run [ReadPage 1 1] (BufMgr_init 1 ex_disk)))))) = Inr 0 \<and>
   writes (backend (snd (allocBuf (snd (unPinPage 1 1 True
     (modifyPage 0 ''a2'' (run [ReadPage 1 1] (BufMgr_init 1 ex_disk)))))))) =
     [(1, \<lparr>page_number = 1, content = ''a2''\<rparr>)] \<and>
   (\<exists>j s2. readPage 1 1 (snd (allocBuf (snd (unPinPage 1 1 True
       (modifyPage 0 ''a2'' (run [ReadPage 1 1] (BufMgr_init 1 ex_disk))))))) = (Inr j, s2) \<and>
     bufPool s2 ! j = \<lparr>page_number = 1, content = ''a2''\<rparr>)"
proof -
  let ?r = "run [ReadPage 1 1] (BufMgr_init 1 ex_disk)"
  let ?s = "snd (unPinPage 1 1 True (modifyPage 0 ''a2'' ?r))"
  have inv0: "pool_inv (BufMgr_init 1 ex_disk)" by (rule pool_inv_init) simp_all
  have invr: "pool_inv (modifyPage 0 ''a2'' ?r)"
    using inv0 by (intro pool_inv_modifyPage pool_inv_run)
  have inv: "pool_inv ?s" using pool_inv_unPinPage[OF invr] by (metis prod.collapse)
  have n: "2 * numBufs ?s < 2 ^ 32" by (simp add: op_defs modifyPage_def)
  have h: "hashTable ?s (1, 1) = Some 0" by (simp add: op_defs modifyPage_def)
  have d: "dirty (bufDescTable ?s ! 0)" by (simp add: op_defs modifyPage_def)
  have b: "bufPool ?s ! 0 = \<lparr>page_number = 1, content = ''a2''\<rparr>" by (simp add: op_defs modifyPage_def)
  have w0: "writes (backend ?s) = []" by (simp add: op_defs modifyPage_def)
  have a: "fst (allocBuf ?s) = Inr 0" by (simp add: op_defs modifyPage_def)
  then have a': "allocBuf ?s = (Inr 0, snd (allocBuf ?s))" by (metis prod.collapse)
  note t = dirty_page_round_trip[OF inv n h d a', unfolded b w0]
  from t have c1: "writes (backend (snd (allocBuf ?s))) = [(1, \<lparr>page_number = 1, content = ''a2''\<rparr>)]"
    by simp
  from t have c2: "\<exists>j s2. readPage 1 1 (snd (allocBuf ?s)) = (Inr j, s2) \<and>
     bufPool s2 ! j = \<lparr>page_number = 1, content = ''a2''\<rparr>"
    by blast
  show ?thesis using inv h d b a c1 c2 by (intro conjI)
qed

section \<open>The bound of the sweep\<close>

lemma evictFrame_advances: "evictFrame i s = (r, s') \<Longrightarrow> advances s' = advances s"
  by (auto simp: evictFrame_def Let_def split: option.splits sum.splits if_splits)

lemma allocBuf_loop_advances:
  "allocBuf_loop m s = (r, mb, s') \<Longrightarrow> mb \<le> m \<and> advances s' = advances s + (m - mb)"
proof (induction m arbitrary: s)
  case 0
  then show ?case by simp
next
  case (Suc m)
  let ?d = "bufDescTable s ! clockHand s"
  consider (free) "\<not> valid ?d" | (ref) "valid ?d" "refbit ?d"
    | (pin) "valid ?d" "\<not> refbit ?d" "0 < pinCnt ?d"
    | (victim) "valid ?d" "\<not> refbit ?d" "\<not> 0 < pinCnt ?d"
    by blast
  then show ?case
  proof cases
    case free
    with Suc.prems show ?thesis by (simp add: allocBuf_loop_Suc)
  next
    case ref
    then have eq: "allocBuf_loop m (advanceClock (clearRef s)) = (r, mb, s')"
      using Suc.prems by (simp add: allocBuf_loop_Suc)
    from Suc.IH[OF eq] have "mb \<le> m" "advances s' = advances s + 1 + (m - mb)"
      by (simp_all add: advanceClock_def clearRef_def)
    then show ?thesis by arith
  next
    case pin
    then have eq: "allocBuf_loop m (advanceClock s) = (r, mb, s')"
      using Suc.prems by (simp add: allocBuf_loop_Suc)
    from Suc.IH[OF eq] have "mb \<le> m" "advances s' = advances s + 1 + (m - mb)"
      by (simp_all add: advanceClock_def)
    then show ?thesis by arith
  next
    case victim
    obtain re se where ev: "evictFrame (clockHand s) s = (re, se)"
      by (cases "evictFrame (clockHand s) s")
    from victim Suc.prems ev evictFrame_advances[OF ev] show ?thesis
      by (auto simp: allocBuf_loop_Suc split: sum.splits)
  qed
qed

text \<open>C6, as amended. \<open>allocBuf\<close> is a total function: on every pool that satisfies the
  invariant it returns, either a frame number or \<^verbatim>\<open>BufferExceededException\<close>, the latter
  exactly when the bound is used up. Its loop starts with \<open>maxBound = 2 * numBufs\<close> (in
  32-bit arithmetic) and is left with \<open>maxBound = mb\<close> after \<open>2 * numBufs - mb\<close> sweep steps,
  at most \<open>2 * numBufs\<close>. The hand advances, modulo \<open>numBufs\<close>, once before the loop and
  once in every sweep step: \<open>1 + (2 * numBufs - mb)\<close> times, at most \<open>2 * numBufs + 1\<close>.\<close>

theorem allocBuf_bounded_sweep:
  assumes "pool_inv s"
  shows "\<exists>mb s'. allocBuf_loop ((2 * numBufs s) mod 2 ^ 32) (advanceClock s) = (Inr (), mb, s') \<and>
     mb \<le> (2 * numBufs s) mod 2 ^ 32 \<and>
     (2 * numBufs s) mod 2 ^ 32 - mb \<le> 2 * numBufs s \<and>
     advances s' = advances s + 1 + ((2 * numBufs s) mod 2 ^ 32 - mb) \<and>
     advances s' \<le> advances s + 2 * numBufs s + 1 \<and>
     clockHand s' = (clockHand s + 1 + ((2 * numBufs s) mod 2 ^ 32 - mb)) mod numBufs s \<and>
     clockHand s' < numBufs s \<and>
     allocBuf s = (if mb = 0 then Inl BufferExceededException else Inr (clockHand s'), s')"
proof -
  let ?m = "(2 * numBufs s) mod 2 ^ 32"
  obtain r mb s' where l: "allocBuf_loop ?m (advanceClock s) = (r, mb, s')"
    by (cases "allocBuf_loop ?m (advanceClock s)")
  have sz: "sizes_ok s" using assms by (rule pool_invD)
  have n: "0 < numBufs s" using sz by (simp add: sizes_ok_def)
  note li = allocBuf_loop_inv[OF pool_inv_advanceClock[OF assms] l,
      unfolded advanceClock_simps clockHand_advanceClock[OF sz]]
  from li have r: "r = Inr ()" and inv': "pool_inv s'" and n': "numBufs s' = numBufs s"
    and le: "mb \<le> ?m"
    and h: "clockHand s' = (Suc (clockHand s) mod numBufs s + (?m - mb)) mod numBufs s"
    by blast+
  have h': "clockHand s' = (clockHand s + 1 + (?m - mb)) mod numBufs s"
    by (simp add: h mod_add_left_eq)
  have b: "?m - mb \<le> 2 * numBufs s"
  proof -
    have "?m \<le> 2 * numBufs s" by (rule mod_less_eq_dividend)
    then show ?thesis by simp
  qed
  have adv: "advances s' = advances s + 1 + (?m - mb)"
    using allocBuf_loop_advances[OF l] by (simp add: advanceClock_def)
  have adv': "advances s' \<le> advances s + 2 * numBufs s + 1" using adv b by simp
  have c: "clockHand s' < numBufs s" using inv' n' by (simp add: pool_inv_def sizes_ok_def)
  have a: "allocBuf s = (if mb = 0 then Inl BufferExceededException else Inr (clockHand s'), s')"
    using n l r by (simp add: allocBuf_def Let_def)
  show ?thesis using l r le b adv adv' h' c a by blast
qed

theorem allocBuf_bounded_sweep_witness:
  "pool_inv (run [ReadPage 1 1] (BufMgr_init 1 ex_disk)) \<and>
   (\<exists>mb s'. allocBuf_loop 2 (advanceClock (run [ReadPage 1 1] (BufMgr_init 1 ex_disk))) = (Inr (), mb, s') \<and>
      mb \<le> 2 \<and> 2 - mb \<le> 2 \<and>
      advances s' = advances (run [ReadPage 1 1] (BufMgr_init 1 ex_disk)) + 1 + (2 - mb) \<and>
      allocBuf (run [ReadPage 1 1] (BufMgr_init 1 ex_disk)) =
        (if mb = 0 then Inl BufferExceededException else Inr (clockHand s'), s')) \<and>
   fst (allocBuf (run [ReadPage 1 1] (BufMgr_init 1 ex_disk))) = Inl BufferExceededException"
proof -
  let ?s = "run [ReadPage 1 1] (BufMgr_init 1 ex_disk)"
  have inv0: "pool_inv (BufMgr_init 1 ex_disk)" by (rule pool_inv_init) simp_all
  have inv: "pool_inv ?s" using inv0 by (rule pool_inv_run)
  have n: "numBufs ?s = 1" by (simp add: op_defs)
  have m: "(2 * numBufs ?s) mod 2 ^ 32 = 2" unfolding n by simp
  from allocBuf_bounded_sweep[OF inv] obtain mb s' where
    t: "allocBuf_loop ((2 * numBufs ?s) mod 2 ^ 32) (advanceClock ?s) = (Inr (), mb, s')"
      "mb \<le> (2 * numBufs ?s) mod 2 ^ 32"
      "advances s' = advances ?s + 1 + ((2 * numBufs ?s) mod 2 ^ 32 - mb)"
      "allocBuf ?s = (if mb = 0 then Inl BufferExceededException else Inr (clockHand s'), s')"
    by blast
  have t1: "allocBuf_loop 2 (advanceClock ?s) = (Inr (), mb, s')" using t(1) by (simp only: m)
  have t2: "mb \<le> 2" using t(2) by (simp only: m)
  have t3: "2 - mb \<le> 2" by simp
  have t4: "advances s' = advances ?s + 1 + (2 - mb)" using t(3) by (simp only: m)
  have a: "\<exists>mb s'. allocBuf_loop 2 (advanceClock ?s) = (Inr (), mb, s') \<and>
      mb \<le> 2 \<and> 2 - mb \<le> 2 \<and> advances s' = advances ?s + 1 + (2 - mb) \<and>
      allocBuf ?s = (if mb = 0 then Inl BufferExceededException else Inr (clockHand s'), s')"
    using t1 t2 t3 t4 t(4) by (intro exI conjI)
  have b: "fst (allocBuf ?s) = Inl BufferExceededException" by (simp add: op_defs)
  show ?thesis using inv a b by (intro conjI)
qed

text \<open>C6 as stated fails on the count of advances: in a pool of one frame that holds a
  pinned page, \<open>allocBuf\<close> raises \<^verbatim>\<open>BufferExceededException\<close> after the hand has advanced
  three times, one more than \<open>2 * numBufs\<close>: once before the loop and once in each of the
  two sweep steps.\<close>

theorem exhausted_sweep_advances_once_more:
  "numBufs (run [ReadPage 1 1] (BufMgr_init 1 ex_disk)) = 1 \<and>
   fst (allocBuf (run [ReadPage 1 1] (BufMgr_init 1 ex_disk))) = Inl BufferExceededException \<and>
   advances (snd (allocBuf (run [ReadPage 1 1] (BufMgr_init 1 ex_disk)))) =
     advances (run [ReadPage 1 1] (BufMgr_init 1 ex_disk)) + 3 \<and>
   2 * numBufs (run [ReadPage 1 1] (BufMgr_init 1 ex_disk)) < 3"
  by (simp add: op_defs)

section \<open>Where a dirty flag can be lost\<close>

lemma fresh_Set: "fresh (Set f p d)"
  by (simp add: fresh_def Set_def)

lemma Clear_Clear: "Clear (Clear d) = Clear d"
  by (simp add: Clear_def)

lemma Clear_same_but_refbit: "same_but_refbit d d' \<Longrightarrow> Clear d' = Clear d"
proof -
  assume "same_but_refbit d d'"
  then have e: "d'\<lparr>refbit := False\<rparr> = d\<lparr>refbit := False\<rparr>" by (simp add: same_but_refbit_def)
  have "Clear d' = Clear (d'\<lparr>refbit := False\<rparr>)" by (simp add: Clear_def)
  also have "\<dots> = Clear (d\<lparr>refbit := False\<rparr>)" by (simp only: e)
  also have "\<dots> = Clear d" by (simp add: Clear_def)
  finally show ?thesis .
qed

lemma new_writes_append:
  "writes (backend s') = writes (backend s) @ ws \<Longrightarrow> new_writes s s' = ws"
  by (simp add: new_writes_def)

text \<open>What \<open>allocBuf\<close> does to one frame: it leaves the descriptor as it is up to the
  reference bit, or the frame is the victim; then the descriptor is the old one cleared,
  and if the frame was dirty the backend has observed exactly one more write, of the
  frame's page.\<close>

lemma allocBuf_frame:
  assumes "pool_inv s" "allocBuf s = (r, s1)"
  shows "\<exists>ws. writes (backend s1) = writes (backend s) @ ws \<and>
     (same_but_refbit (bufDescTable s ! i) (bufDescTable s1 ! i) \<or>
      (bufDescTable s1 ! i = Clear (bufDescTable s ! i) \<and>
       (dirty (bufDescTable s ! i) \<longrightarrow>
          (the (file_ptr (bufDescTable s ! i)), bufPool s ! i) \<in> set ws)))"
proof -
  let ?m = "(2 * numBufs s) mod 2 ^ 32"
  obtain mb t where st: "allocBuf_search ?m (advanceClock s) = (mb, t)"
    by (cases "allocBuf_search ?m (advanceClock s)")
  have inva: "pool_inv (advanceClock s)" using assms(1) by (rule pool_inv_advanceClock)
  have invt: "pool_inv t" using pool_inv_allocBuf_search[OF inva st] .
  have c: "clockHand t < length (bufDescTable t)" using invt by (simp add: pool_inv_def sizes_ok_def)
  note props = allocBuf_search_props[OF pool_invD(1)[OF inva] st, unfolded advanceClock_simps]
  from props have sb: "same_but_refbit (bufDescTable s ! i) (bufDescTable t ! i)"
    and bt: "backend t = backend s" and pt: "bufPool t = bufPool s" by blast+
  note fld = same_but_refbit_fields[OF sb]
  note eq = allocBuf_eq[OF assms(1) st, unfolded assms(2)]
  show ?thesis
  proof (cases "mb = 0 \<or> \<not> valid (bufDescTable t ! clockHand t)")
    case True
    with eq have "s1 = t" by (auto split: if_splits)
    with sb bt show ?thesis by simp
  next
    case False
    with eq have s1: "s1 = evicted (clockHand t) t" by (auto split: if_splits)
    let ?ws = "if dirty (bufDescTable t ! clockHand t)
               then [(the (file_ptr (bufDescTable t ! clockHand t)), bufPool t ! clockHand t)] else []"
    have w: "writes (backend s1) = writes (backend s) @ ?ws"
      by (simp add: s1 evicted_writes bt)
    show ?thesis
    proof (cases "i = clockHand t")
      case True
      have "bufDescTable s1 ! i = Clear (bufDescTable t ! i)"
        using True c by (simp add: s1 evicted_simps)
      then have cl: "bufDescTable s1 ! i = Clear (bufDescTable s ! i)"
        by (simp add: Clear_same_but_refbit[OF sb])
      have "dirty (bufDescTable s ! i) \<longrightarrow>
          (the (file_ptr (bufDescTable s ! i)), bufPool s ! i) \<in> set ?ws"
        using True fld(3,5) pt by simp
      with w cl show ?thesis by blast
    next
      case False
      then have "bufDescTable s1 ! i = bufDescTable t ! i" by (simp add: s1 evicted_simps)
      with sb w show ?thesis by auto
    qed
  qed
qed

text \<open>The same for the loop of \<open>flushFile\<close>, wherever it stops.\<close>

lemma flushFile_loop_frame:
  "pool_inv s \<Longrightarrow> \<forall>j \<in> set js. j < numBufs s \<Longrightarrow> flushFile_loop f js s = (r, s') \<Longrightarrow>
   \<exists>ws. writes (backend s') = writes (backend s) @ ws \<and> bufPool s' = bufPool s \<and>
     (bufDescTable s' ! i = bufDescTable s ! i \<or>
      (bufDescTable s' ! i = Clear (bufDescTable s ! i) \<and>
       (dirty (bufDescTable s ! i) \<longrightarrow>
          (the (file_ptr (bufDescTable s ! i)), bufPool s ! i) \<in> set ws)))"
proof (induction js arbitrary: s)
  case Nil
  then show ?case by simp
next
  case (Cons k js)
  let ?d = "bufDescTable s ! k"
  have k: "k < numBufs s" and js: "\<forall>j \<in> set js. j < numBufs s" using Cons.prems(2) by simp_all
  have len: "length (bufDescTable s) = numBufs s"
    using Cons.prems(1) by (simp add: pool_inv_def sizes_ok_def)
  consider (bad) "corrupt ?d" | (skip) "\<not> corrupt ?d" "\<not> belongs f ?d"
    | (pinned) "\<not> corrupt ?d" "belongs f ?d" "0 < pinCnt ?d"
    | (go) "\<not> corrupt ?d" "belongs f ?d" "\<not> 0 < pinCnt ?d"
    by blast
  then show ?case
  proof cases
    case bad
    with Cons.prems(3) show ?thesis by (simp add: flushFile_loop_Cons)
  next
    case skip
    with Cons.prems(3) have "flushFile_loop f js s = (r, s')" by (simp add: flushFile_loop_Cons)
    from Cons.IH[OF Cons.prems(1) js this] show ?thesis .
  next
    case pinned
    with Cons.prems(3) show ?thesis by (simp add: flushFile_loop_Cons)
  next
    case go
    then have v: "valid ?d" by (simp add: belongs_def)
    let ?s1 = "evicted k s"
    have ev: "evictFrame k s = (Inr (), ?s1)"
      using Cons.prems(1) k v by (intro evictFrame_eq pool_invD)
    have inv: "pool_inv ?s1" using Cons.prems(1) k v by (rule pool_inv_evicted)
    have run: "flushFile_loop f js ?s1 = (r, s')"
      using Cons.prems(3) go ev by (simp add: flushFile_loop_Cons)
    have js1: "\<forall>j \<in> set js. j < numBufs ?s1" using js by (simp add: evicted_simps)
    let ?w1 = "if dirty ?d then [(the (file_ptr ?d), bufPool s ! k)] else []"
    have w1: "writes (backend ?s1) = writes (backend s) @ ?w1" by (rule evicted_writes)
    from Cons.IH[OF inv js1 run, unfolded evicted_simps(2)] obtain ws where
      ih: "writes (backend s') = writes (backend ?s1) @ ws" "bufPool s' = bufPool s"
        "bufDescTable s' ! i = bufDescTable ?s1 ! i \<or>
          (bufDescTable s' ! i = Clear (bufDescTable ?s1 ! i) \<and>
           (dirty (bufDescTable ?s1 ! i) \<longrightarrow>
              (the (file_ptr (bufDescTable ?s1 ! i)), bufPool s ! i) \<in> set ws))"
      by blast
    have w: "writes (backend s') = writes (backend s) @ (?w1 @ ws)"
      using ih(1) w1 by simp
    have fr: "bufDescTable s' ! i = bufDescTable s ! i \<or>
      (bufDescTable s' ! i = Clear (bufDescTable s ! i) \<and>
       (dirty (bufDescTable s ! i) \<longrightarrow>
          (the (file_ptr (bufDescTable s ! i)), bufPool s ! i) \<in> set (?w1 @ ws)))"
    proof (cases "i = k")
      case True
      have "bufDescTable ?s1 ! i = Clear ?d" using True k len by (simp add: evicted_simps)
      with ih(3) have "bufDescTable s' ! i = Clear ?d" by (auto simp: Clear_Clear)
      with True show ?thesis by simp
    next
      case False
      then have "bufDescTable ?s1 ! i = bufDescTable s ! i" by (simp add: evicted_simps)
      with ih(3) show ?thesis by auto
    qed
    show ?thesis using w ih(2) fr by blast
  qed
qed

text \<open>Every public operation, seen from a frame that is dirty when it starts.\<close>

lemma exec_frame:
  assumes "pool_inv s" "i < numBufs s" "dirty (bufDescTable s ! i)"
  shows "dirty (bufDescTable (exec x s) ! i) \<or>
     ((the (file_ptr (bufDescTable s ! i)), bufPool s ! i) \<in> set (new_writes s (exec x s)) \<and>
      (bufDescTable (exec x s) ! i = Clear (bufDescTable s ! i) \<or> fresh (bufDescTable (exec x s) ! i))) \<or>
     (x = DisposePage (the (file_ptr (bufDescTable s ! i))) (pageNo (bufDescTable s ! i)) \<and>
      bufDescTable (exec x s) ! i = Clear (bufDescTable s ! i))"
proof -
  let ?d = "bufDescTable s ! i"
  let ?w = "(the (file_ptr ?d), bufPool s ! i)"
  have len: "length (bufDescTable s) = numBufs s"
    using assms(1) by (simp add: pool_inv_def sizes_ok_def)
  have via_allocBuf: "dirty (bufDescTable s1 ! i) \<or>
      (?w \<in> set (new_writes s s1) \<and> bufDescTable s1 ! i = Clear ?d)"
    if ab: "allocBuf sa = (ra, s1)" and sa: "pool_inv sa" "bufDescTable sa = bufDescTable s"
      "bufPool sa = bufPool s" "writes (backend sa) = writes (backend s)" for sa ra s1
  proof -
    from allocBuf_frame[OF sa(1) ab, of i, unfolded sa(2,3,4)] obtain ws where
      w: "writes (backend s1) = writes (backend s) @ ws"
      and fr: "same_but_refbit ?d (bufDescTable s1 ! i) \<or>
        (bufDescTable s1 ! i = Clear ?d \<and> (dirty ?d \<longrightarrow> ?w \<in> set ws))"
      by blast
    from fr show ?thesis
    proof
      assume "same_but_refbit ?d (bufDescTable s1 ! i)"
      from same_but_refbit_fields(5)[OF this] assms(3) show ?thesis by simp
    next
      assume "bufDescTable s1 ! i = Clear ?d \<and> (dirty ?d \<longrightarrow> ?w \<in> set ws)"
      with assms(3) new_writes_append[OF w] show ?thesis by simp
    qed
  qed
  have via_installed: "dirty (bufDescTable (installed j g q pg s1) ! i) \<or>
      (?w \<in> set (new_writes s (installed j g q pg s1)) \<and>
       (bufDescTable (installed j g q pg s1) ! i = Clear ?d \<or>
        fresh (bufDescTable (installed j g q pg s1) ! i)))"
    if a: "dirty (bufDescTable s1 ! i) \<or>
      (?w \<in> set (new_writes s s1) \<and> bufDescTable s1 ! i = Clear ?d)"
      and j: "j < length (bufDescTable s1)" "\<not> valid (bufDescTable s1 ! j)"
      and fo: "free_ok s1" "length (bufDescTable s1) = numBufs s1" for j g q pg s1
  proof (cases "i = j")
    case False
    with a show ?thesis by (auto simp: installed_simps new_writes_def)
  next
    case True
    have "\<not> corrupt (bufDescTable s1 ! j)" using fo j(1) by (simp add: free_ok_def)
    with j(2) have "\<not> dirty (bufDescTable s1 ! j)" by (auto simp: corrupt_def)
    with a True have "?w \<in> set (new_writes s s1)" by auto
    moreover have "fresh (bufDescTable (installed j g q pg s1) ! i)"
      using True j(1) by (simp add: installed_simps fresh_Set)
    ultimately show ?thesis by (simp add: installed_simps new_writes_def)
  qed
  show ?thesis
  proof (cases x)
    case (ReadPage f p)
    show ?thesis
    proof (cases "hashTable s (f, p)")
      case (Some j)
      from index_ok_entry[OF pool_invD(4)[OF assms(1)] Some] have "j < numBufs s" by simp
      with assms(3) len show ?thesis
        by (cases "i = j") (simp_all add: ReadPage readPage_hit[OF Some])
    next
      case None
      obtain ra s1 where ab: "allocBuf s = (ra, s1)" by (cases "allocBuf s")
      note res = allocBuf_result[OF assms(1) ab]
      have h1: "hashTable s1 (f, p) = None" using res(4)[of "(f, p)"] None by auto
      have c: "clockHand s1 < length (bufDescTable s1)"
        and l1: "length (bufDescTable s1) = numBufs s1" and fo: "free_ok s1"
        using res(1) by (simp_all add: pool_inv_def sizes_ok_def)
      note a = via_allocBuf[OF ab assms(1) refl refl refl]
      from res(3) show ?thesis
      proof
        assume "ra = Inl BufferExceededException"
        with None ab a show ?thesis by (auto simp: ReadPage readPage_miss)
      next
        assume ok: "ra = Inr (clockHand s1) \<and> \<not> valid (bufDescTable s1 ! clockHand s1)"
        show ?thesis
        proof (cases "file_readPage f p (backend s1)")
          case (Inl e)
          with None ab ok a show ?thesis by (auto simp: ReadPage readPage_miss)
        next
          case (Inr pg)
          from ok have nv: "\<not> valid (bufDescTable s1 ! clockHand s1)" by simp
          note b = via_installed[OF a c nv fo l1, of f p pg]
          have "exec x s = installed (clockHand s1) f p pg s1"
            using None ab ok Inr h1 by (simp add: ReadPage readPage_miss)
          with b show ?thesis by auto
        qed
      qed
    qed
  next
    case (UnPinPage f p dty)
    show ?thesis
    proof (cases "hashTable s (f, p)")
      case None
      with assms(3) show ?thesis by (simp add: UnPinPage unPinPage_def)
    next
      case (Some j)
      from index_ok_entry[OF pool_invD(4)[OF assms(1)] Some] have "j < numBufs s" by simp
      with Some assms(3) len show ?thesis
        by (cases "i = j") (auto simp: UnPinPage unPinPage_def Let_def)
    qed
  next
    case (AllocPage f)
    obtain new_pg st where al: "file_allocatePage f (backend s) = (new_pg, st)"
      by (cases "file_allocatePage f (backend s)")
    let ?sa = "s\<lparr>backend := st\<rparr>"
    have inva: "pool_inv ?sa" using assms(1) by (simp add: pool_inv_backend)
    have wst: "writes (backend ?sa) = writes (backend s)"
      using al by (auto simp: file_allocatePage_def Let_def)
    obtain ra s1 where ab: "allocBuf ?sa = (ra, s1)" by (cases "allocBuf ?sa")
    note res = allocBuf_result[OF inva ab]
    have c: "clockHand s1 < length (bufDescTable s1)"
      and l1: "length (bufDescTable s1) = numBufs s1" and fo: "free_ok s1"
      using res(1) by (simp_all add: pool_inv_def sizes_ok_def)
    have a: "dirty (bufDescTable s1 ! i) \<or>
      (?w \<in> set (new_writes s s1) \<and> bufDescTable s1 ! i = Clear ?d)"
      by (rule via_allocBuf[OF ab inva _ _ wst]) simp_all
    from res(3) show ?thesis
    proof
      assume "ra = Inl BufferExceededException"
      with al ab a show ?thesis by (auto simp: AllocPage allocPage_def)
    next
      assume ok: "ra = Inr (clockHand s1) \<and> \<not> valid (bufDescTable s1 ! clockHand s1)"
      show ?thesis
      proof (cases "hashTable s1 (f, page_number new_pg)")
        case (Some j)
        with al ab ok a show ?thesis by (auto simp: AllocPage allocPage_def hash_insert_def)
      next
        case None
        from ok have nv: "\<not> valid (bufDescTable s1 ! clockHand s1)" by simp
        note b = via_installed[OF a c nv fo l1, of f "page_number new_pg" new_pg]
        have "snd (allocPage f s) = installed (clockHand s1) f (page_number new_pg) new_pg s1"
          using al ab ok None by (cases s1) (auto simp: allocPage_def hash_insert_def installed_def)
        then have "exec x s = installed (clockHand s1) f (page_number new_pg) new_pg s1"
          by (simp add: AllocPage)
        with b show ?thesis by auto
      qed
    qed
  next
    case (FlushFile f)
    obtain r s' where fl: "flushFile f s = (r, s')" by (cases "flushFile f s")
    from flushFile_loop_frame[OF assms(1) _ fl[unfolded flushFile_def], of i] obtain ws where
      w: "writes (backend s') = writes (backend s) @ ws"
      and fr: "bufDescTable s' ! i = ?d \<or> (bufDescTable s' ! i = Clear ?d \<and> (dirty ?d \<longrightarrow> ?w \<in> set ws))"
      by auto
    have e: "exec x s = s'" using fl by (simp add: FlushFile)
    from fr assms(3) new_writes_append[OF w] show ?thesis unfolding e by auto
  next
    case (DisposePage f p)
    show ?thesis
    proof (cases "file_deletePage f p (backend s)")
      case (Inl e)
      with assms(3) show ?thesis by (simp add: DisposePage disposePage_def)
    next
      case (Inr st)
      show ?thesis
      proof (cases "hashTable s (f, p)")
        case None
        with Inr assms(3) show ?thesis by (simp add: DisposePage disposePage_def Let_def)
      next
        case (Some j)
        from index_ok_entry[OF pool_invD(4)[OF assms(1)] Some]
        have j: "j < numBufs s" "file_ptr (bufDescTable s ! j) = Some f" "pageNo (bufDescTable s ! j) = p"
          by simp_all
        show ?thesis
        proof (cases "i = j")
          case True
          with Inr Some j len show ?thesis
            by (simp add: DisposePage disposePage_def Let_def)
        next
          case False
          with Inr Some assms(3) show ?thesis
            by (simp add: DisposePage disposePage_def Let_def)
        qed
      qed
    qed
  qed
qed

text \<open>C9. A release never clears a dirty flag, whatever its modified argument: a frame
  that is dirty before \<open>unPinPage\<close> is dirty after it, and with the argument false the
  dirty flags of all frames are exactly what they were. More generally a dirty flag is
  lost only with a write-back or with the clearing of the frame. After any public
  operation a frame that was dirty is still dirty; or the backend has observed, during
  the operation, a \<^verbatim>\<open>writePage\<close> of the frame's page, and the descriptor is the old one
  cleared or one that \<^verbatim>\<open>Set\<close> has filled for a newly loaded page; or the operation is
  \<open>disposePage\<close> of the frame's own page, and the descriptor is the old one cleared.\<close>

theorem unPinPage_keeps_dirty:
  assumes "pool_inv s" and "unPinPage f p dty s = (r, s')"
  shows "length (bufDescTable s') = length (bufDescTable s) \<and>
    (\<forall>i < numBufs s. dirty (bufDescTable s ! i) \<longrightarrow> dirty (bufDescTable s' ! i)) \<and>
    (\<not> dty \<longrightarrow> (\<forall>i < numBufs s. dirty (bufDescTable s' ! i) = dirty (bufDescTable s ! i))) \<and>
    (\<forall>x. \<forall>i < numBufs s. dirty (bufDescTable s ! i) \<longrightarrow>
       dirty (bufDescTable (exec x s) ! i) \<or>
       ((the (file_ptr (bufDescTable s ! i)), bufPool s ! i) \<in> set (new_writes s (exec x s)) \<and>
        (bufDescTable (exec x s) ! i = Clear (bufDescTable s ! i) \<or>
         fresh (bufDescTable (exec x s) ! i))) \<or>
       (x = DisposePage (the (file_ptr (bufDescTable s ! i))) (pageNo (bufDescTable s ! i)) \<and>
        bufDescTable (exec x s) ! i = Clear (bufDescTable s ! i)))"
proof -
  have len: "length (bufDescTable s) = numBufs s" using assms(1) by (simp add: pool_inv_def sizes_ok_def)
  have unpin: "length (bufDescTable s') = length (bufDescTable s) \<and>
    (\<forall>i < numBufs s. dirty (bufDescTable s ! i) \<longrightarrow> dirty (bufDescTable s' ! i)) \<and>
    (\<not> dty \<longrightarrow> (\<forall>i < numBufs s. dirty (bufDescTable s' ! i) = dirty (bufDescTable s ! i)))"
  proof (cases "hashTable s (f, p)")
    case None
    with assms(2) show ?thesis by (simp add: unPinPage_def)
  next
    case (Some j)
    from index_ok_entry[OF pool_invD(4)[OF assms(1)] Some] have "j < numBufs s" by simp
    with Some assms(2) len show ?thesis
      by (auto simp: unPinPage_def Let_def nth_list_update split: if_splits)
  qed
  have any: "\<forall>x. \<forall>i < numBufs s. dirty (bufDescTable s ! i) \<longrightarrow>
       dirty (bufDescTable (exec x s) ! i) \<or>
       ((the (file_ptr (bufDescTable s ! i)), bufPool s ! i) \<in> set (new_writes s (exec x s)) \<and>
        (bufDescTable (exec x s) ! i = Clear (bufDescTable s ! i) \<or>
         fresh (bufDescTable (exec x s) ! i))) \<or>
       (x = DisposePage (the (file_ptr (bufDescTable s ! i))) (pageNo (bufDescTable s ! i)) \<and>
        bufDescTable (exec x s) ! i = Clear (bufDescTable s ! i))"
    using exec_frame[OF assms(1)] by blast
  show ?thesis using unpin any by blast
qed

theorem unPinPage_keeps_dirty_witness:
  "pool_inv (run [ReadPage 1 1, ReadPage 1 1, UnPinPage 1 1 True] (BufMgr_init 1 ex_disk)) \<and>
   dirty (bufDescTable (run [ReadPage 1 1, ReadPage 1 1, UnPinPage 1 1 True] (BufMgr_init 1 ex_disk)) ! 0) \<and>
   fst (unPinPage 1 1 False
         (run [ReadPage 1 1, ReadPage 1 1, UnPinPage 1 1 True] (BufMgr_init 1 ex_disk))) = Inr () \<and>
   dirty (bufDescTable (snd (unPinPage 1 1 False
         (run [ReadPage 1 1, ReadPage 1 1, UnPinPage 1 1 True] (BufMgr_init 1 ex_disk)))) ! 0) \<and>
   pool_inv (run [ReadPage 1 1, UnPinPage 1 1 True] (BufMgr_init 1 ex_disk)) \<and>
   dirty (bufDescTable (run [ReadPage 1 1, UnPinPage 1 1 True] (BufMgr_init 1 ex_disk)) ! 0) \<and>
   \<not> dirty (bufDescTable (exec (ReadPage 1 2)
       (run [ReadPage 1 1, UnPinPage 1 1 True] (BufMgr_init 1 ex_disk))) ! 0) \<and>
   (1, \<lparr>page_number = 1, content = ''a''\<rparr>) \<in> set (new_writes
       (run [ReadPage 1 1, UnPinPage 1 1 True] (BufMgr_init 1 ex_disk))
       (exec (ReadPage 1 2) (run [ReadPage 1 1, UnPinPage 1 1 True] (BufMgr_init 1 ex_disk))))"
proof -
  let ?s = "run [ReadPage 1 1, ReadPage 1 1, UnPinPage 1 1 True] (BufMgr_init 1 ex_disk)"
  let ?u = "run [ReadPage 1 1, UnPinPage 1 1 True] (BufMgr_init 1 ex_disk)"
  have inv0: "pool_inv (BufMgr_init 1 ex_disk)" by (rule pool_inv_init) simp_all
  have inv: "pool_inv ?s" using inv0 by (rule pool_inv_run)
  have n: "numBufs ?s = 1" by (simp add: op_defs)
  have a: "dirty (bufDescTable ?s ! 0)" by (simp add: op_defs)
  have b: "fst (unPinPage 1 1 False ?s) = Inr ()" by (simp add: op_defs)
  have e: "unPinPage 1 1 False ?s = (fst (unPinPage 1 1 False ?s), snd (unPinPage 1 1 False ?s))"
    by simp
  from unPinPage_keeps_dirty[OF inv e] n a
  have c: "dirty (bufDescTable (snd (unPinPage 1 1 False ?s)) ! 0)" by simp
  have invu: "pool_inv ?u" using inv0 by (rule pool_inv_run)
  have nu: "(0::nat) < numBufs ?u" by (simp add: op_defs)
  have au: "dirty (bufDescTable ?u ! 0)" by (simp add: op_defs)
  have fu: "the (file_ptr (bufDescTable ?u ! 0)) = 1" by (simp add: op_defs)
  have pu: "bufPool ?u ! 0 = \<lparr>page_number = 1, content = ''a''\<rparr>" by (simp add: op_defs)
  have lost: "\<not> dirty (bufDescTable (exec (ReadPage 1 2) ?u) ! 0)" by (simp add: op_defs)
  have eu: "unPinPage 1 1 False ?u = (fst (unPinPage 1 1 False ?u), snd (unPinPage 1 1 False ?u))"
    by simp
  from unPinPage_keeps_dirty[OF invu eu] nu au
  have "dirty (bufDescTable (exec (ReadPage 1 2) ?u) ! 0) \<or>
       ((the (file_ptr (bufDescTable ?u ! 0)), bufPool ?u ! 0) \<in> set (new_writes ?u (exec (ReadPage 1 2) ?u)) \<and>
        (bufDescTable (exec (ReadPage 1 2) ?u) ! 0 = Clear (bufDescTable ?u ! 0) \<or>
         fresh (bufDescTable (exec (ReadPage 1 2) ?u) ! 0))) \<or>
       (ReadPage 1 2 = DisposePage (the (file_ptr (bufDescTable ?u ! 0))) (pageNo (bufDescTable ?u ! 0)) \<and>
        bufDescTable (exec (ReadPage 1 2) ?u) ! 0 = Clear (bufDescTable ?u ! 0))"
    by blast
  with lost have "(the (file_ptr (bufDescTable ?u ! 0)), bufPool ?u ! 0) \<in>
      set (new_writes ?u (exec (ReadPage 1 2) ?u))" by blast
  then have w: "(1, \<lparr>page_number = 1, content = ''a''\<rparr>) \<in> set (new_writes ?u (exec (ReadPage 1 2) ?u))"
    by (simp only: fu pu)
  show ?thesis using inv a b c invu au lost w by (intro conjI)
qed

end
